theory Spec2Isabelle
  imports Main
begin

section \<open>Configuration (config.py)\<close>

text \<open>
  Cell values and colours are Python integers: \<open>EMPTY = 0\<close>, \<open>BLACK = 1\<close>,
  \<open>WHITE = -1\<close>. A board is a list of rows, each row a list of cells.
\<close>

type_synonym board = "int list list"
type_synonym pos = "int \<times> int"

definition BOARD_SIZE :: int where
  "BOARD_SIZE = 8"

definition EMPTY :: int where
  "EMPTY = 0"

definition BLACK :: int where
  "BLACK = 1"

definition WHITE :: int where
  "WHITE = - 1"

definition DIRECTIONS :: "pos list" where
  "DIRECTIONS = [(- 1, - 1), (- 1, 0), (- 1, 1), (0, - 1), (0, 1), (1, - 1), (1, 0), (1, 1)]"

text \<open>
  The boards of the program are 8 by 8: the constructor builds one, and every later write
  replaces a cell of an existing row. On such a board every read \<open>board[r][c]\<close> that
  the source guards by \<open>is_valid_position\<close>, or takes from \<open>range(BOARD_SIZE)\<close>, is in
  range.
\<close>

definition wf_board :: "board \<Rightarrow> bool" where
  "wf_board b = (length b = 8 \<and> list_all (\<lambda>row. length row = 8) b)"

definition cell :: "board \<Rightarrow> int \<Rightarrow> int \<Rightarrow> int" where
  "cell b r c = b ! nat r ! nat c"

definition set_cell :: "board \<Rightarrow> int \<Rightarrow> int \<Rightarrow> int \<Rightarrow> board" where
  "set_cell b r c v = b[nat r := (b ! nat r)[nat c := v]]"

section \<open>Rules engine (game.py)\<close>

definition is_valid_position :: "int \<Rightarrow> int \<Rightarrow> bool" where
  "is_valid_position row col = (0 \<le> row \<and> row < BOARD_SIZE \<and> 0 \<le> col \<and> col < BOARD_SIZE)"

definition get_opponent :: "int \<Rightarrow> int" where
  "get_opponent color = (if color = BLACK then WHITE else BLACK)"

text \<open>
  The scan shared by \<open>is_valid_move\<close>, \<open>get_legal_moves\<close>, \<open>flip_discs\<close> and
  \<open>apply_move\<close>:
  \<^verbatim>\<open>
    while self.is_valid_position(r, c) and board[r][c] == opponent:
        temp_flipped.append((r, c)); r += dr; c += dc
  \<close>
  It returns the cells collected and the position at which the loop stopped. The source
  runs it only with steps taken from \<open>DIRECTIONS\<close>, none of which is \<open>(0, 0)\<close>; with a
  zero step the loop of the source would not end, so the model stops there.
\<close>

function walk :: "board \<Rightarrow> int \<Rightarrow> pos \<Rightarrow> int \<Rightarrow> int \<Rightarrow> pos list \<times> int \<times> int" where
  "walk b opp (dr, dc) r c =
     (if (dr, dc) \<noteq> (0, 0) \<and> is_valid_position r c \<and> cell b r c = opp
      then (case walk b opp (dr, dc) (r + dr) (c + dc) of
              (fl, r', c') \<Rightarrow> ((r, c) # fl, r', c'))
      else ([], r, c))"
  by pat_completeness auto
termination
  by (relation "measure (\<lambda>(b, opp, (dr, dc), r, c).
        if 0 < dr then nat (8 - r) else if dr < 0 then nat (r + 1)
        else if 0 < dc then nat (8 - c) else nat (c + 1))")
     (auto simp: is_valid_position_def BOARD_SIZE_def)

declare walk.simps [simp del]

text \<open>
  One direction of the legality test: at least one opposing disc was crossed and the scan
  stopped on a disc of the mover's colour.
\<close>

definition outflanks :: "board \<Rightarrow> int \<Rightarrow> int \<Rightarrow> int \<Rightarrow> pos \<Rightarrow> bool" where
  "outflanks b row col color d =
     (case walk b (get_opponent color) d (row + fst d) (col + snd d) of
        (fl, r, c) \<Rightarrow> fl \<noteq> [] \<and> is_valid_position r c \<and> cell b r c = color)"

definition is_valid_move :: "board \<Rightarrow> int \<Rightarrow> int \<Rightarrow> int \<Rightarrow> bool" where
  "is_valid_move b row col color =
     (if \<not> is_valid_position row col then False
      else if cell b row col \<noteq> EMPTY then False
      else list_ex (outflanks b row col color) DIRECTIONS)"

text \<open>\<open>range(BOARD_SIZE)\<close>, written out.\<close>

definition range8 :: "int list" where
  "range8 = [0, 1, 2, 3, 4, 5, 6, 7]"

definition legal_moves :: "board \<Rightarrow> int \<Rightarrow> pos list" where
  "legal_moves b color =
     concat (map (\<lambda>i. concat (map (\<lambda>j. if is_valid_move b i j color then [(i, j)] else [])
                                  range8))
                 range8)"

text \<open>
  \<open>get_legal_moves\<close> repeats the test inline on a board passed as an argument: a
  non-empty cell is skipped, and the scan of the directions stops at the first one that
  qualifies, so a cell is appended at most once.
\<close>

definition get_legal_moves :: "board \<Rightarrow> int \<Rightarrow> pos list" where
  "get_legal_moves b color =
     concat (map (\<lambda>i. concat (map (\<lambda>j.
                 if cell b i j \<noteq> EMPTY then []
                 else if list_ex (outflanks b i j color) DIRECTIONS then [(i, j)] else [])
               range8))
             range8)"

text \<open>The cells one direction contributes to \<open>flip_discs\<close>.\<close>

definition dir_flips :: "board \<Rightarrow> int \<Rightarrow> int \<Rightarrow> int \<Rightarrow> pos \<Rightarrow> pos list" where
  "dir_flips b row col color d =
     (case walk b (get_opponent color) d (row + fst d) (col + snd d) of
        (fl, r, c) \<Rightarrow> if fl \<noteq> [] \<and> is_valid_position r c \<and> cell b r c = color then fl else [])"

definition flip_discs :: "board \<Rightarrow> int \<Rightarrow> int \<Rightarrow> int \<Rightarrow> pos list" where
  "flip_discs b row col color =
     (if \<not> is_valid_move b row col color then []
      else concat (map (dir_flips b row col color) DIRECTIONS))"

text \<open>
  The game object: its board and the undo history. A history entry is the dictionary
  with the keys \<open>'move'\<close>, \<open>'color'\<close> and \<open>'flipped'\<close>; the move \<open>None\<close> is a pass.
\<close>

record entry =
  entry_move :: "pos option"
  entry_color :: int
  entry_flipped :: "pos list"

record game =
  board :: board
  history :: "entry list"

definition new_game :: game where
  "new_game =
     \<lparr>board = set_cell (set_cell (set_cell (set_cell (replicate 8 (replicate 8 EMPTY))
                3 3 BLACK) 3 4 WHITE) 4 3 WHITE) 4 4 BLACK,
      history = []\<rparr>"

text \<open>\<open>for r, c in flipped: self.board[r][c] = v\<close>\<close>

fun set_cells :: "board \<Rightarrow> pos list \<Rightarrow> int \<Rightarrow> board" where
  "set_cells b [] v = b"
| "set_cells b ((r, c) # ps) v = set_cells (set_cell b r c v) ps v"

definition make_move :: "game \<Rightarrow> pos option \<Rightarrow> int \<Rightarrow> bool \<times> game" where
  "make_move g mv color =
     (case mv of
        None \<Rightarrow>
          (True, g\<lparr>history := history g @
                   [\<lparr>entry_move = None, entry_color = color, entry_flipped = []\<rparr>]\<rparr>)
      | Some (row, col) \<Rightarrow>
          if \<not> is_valid_move (board g) row col color then (False, g)
          else let fl = flip_discs (board g) row col color
               in (True, \<lparr>board = set_cells (set_cell (board g) row col color) fl color,
                          history = history g @
                            [\<lparr>entry_move = mv, entry_color = color, entry_flipped = fl\<rparr>]\<rparr>))"

definition undo_last_move :: "game \<Rightarrow> bool \<times> game" where
  "undo_last_move g =
     (if history g = [] then (False, g)
      else let last_e = last (history g); h = butlast (history g)
           in case entry_move last_e of
                None \<Rightarrow> (True, g\<lparr>history := h\<rparr>)
              | Some (row, col) \<Rightarrow>
                  (True, \<lparr>board = set_cells (set_cell (board g) row col EMPTY)
                                     (entry_flipped last_e) (get_opponent (entry_color last_e)),
                          history = h\<rparr>))"

definition count_discs :: "board \<Rightarrow> nat \<times> nat" where
  "count_discs b =
     (sum_list (map (\<lambda>row. count_list row BLACK) b),
      sum_list (map (\<lambda>row. count_list row WHITE) b))"

definition is_game_over :: "board \<Rightarrow> bool" where
  "is_game_over b = (legal_moves b BLACK = [] \<and> legal_moves b WHITE = [])"

text \<open>
  \<open>apply_move\<close> works on a copy of the board it is given. The write
  \<open>new_board[row][col] = color\<close> is not guarded: Python counts a negative index from the
  end and raises \<open>IndexError\<close> outside \<open>-len .. len - 1\<close>. Each direction is then scanned
  on the board as the earlier directions left it.
\<close>

datatype py_error = IndexError | ValueError

definition py_index :: "nat \<Rightarrow> int \<Rightarrow> nat option" where
  "py_index n i =
     (let j = (if i < 0 then i + int n else i)
      in if 0 \<le> j \<and> j < int n then Some (nat j) else None)"

definition py_set_cell :: "board \<Rightarrow> int \<Rightarrow> int \<Rightarrow> int \<Rightarrow> py_error + board" where
  "py_set_cell b row col v =
     (case py_index (length b) row of
        None \<Rightarrow> Inl IndexError
      | Some i \<Rightarrow>
          (case py_index (length (b ! i)) col of
             None \<Rightarrow> Inl IndexError
           | Some j \<Rightarrow> Inr (b[i := (b ! i)[j := v]])))"

definition apply_dir :: "int \<Rightarrow> int \<Rightarrow> int \<Rightarrow> board \<Rightarrow> pos \<Rightarrow> board" where
  "apply_dir row col color nb d =
     (case walk nb (get_opponent color) d (row + fst d) (col + snd d) of
        (fl, r, c) \<Rightarrow>
          if fl \<noteq> [] \<and> is_valid_position r c \<and> cell nb r c = color
          then set_cells nb fl color else nb)"

definition apply_move :: "board \<Rightarrow> pos option \<Rightarrow> int \<Rightarrow> py_error + board" where
  "apply_move b mv color =
     (case mv of
        None \<Rightarrow> Inr b
      | Some (row, col) \<Rightarrow>
          (case py_set_cell b row col color of
             Inl e \<Rightarrow> Inl e
           | Inr nb \<Rightarrow> Inr (foldl (apply_dir row col color) nb DIRECTIONS)))"

text \<open>A board with no empty cell, and a position in which White has to pass.\<close>

definition board_full :: "board \<Rightarrow> bool" where
  "board_full b = list_all (\<lambda>row. list_all (\<lambda>x. x \<noteq> EMPTY) row) b"

definition pass_board :: board where
  "pass_board = set_cell (set_cell (replicate 8 (replicate 8 EMPTY)) 0 0 BLACK) 0 1 WHITE"

section \<open>Search engine (ai.py)\<close>

subsection \<open>Scores\<close>

text \<open>
  A score is a Python integer returned by the evaluator, or one of the floats
  \<open>-math.inf\<close> and \<open>math.inf\<close> with which the search initialises its bounds. Python
  compares an integer with an infinity exactly.
\<close>

datatype score = NegInf | Fin int | PosInf

instantiation score :: linorder
begin

fun less_eq_score :: "score \<Rightarrow> score \<Rightarrow> bool" where
  "less_eq_score NegInf y = True"
| "less_eq_score (Fin a) NegInf = False"
| "less_eq_score (Fin a) (Fin b) = (a \<le> b)"
| "less_eq_score (Fin a) PosInf = True"
| "less_eq_score PosInf PosInf = True"
| "less_eq_score PosInf y = False"

definition less_score :: "score \<Rightarrow> score \<Rightarrow> bool" where
  "less_score x y = (x \<le> y \<and> \<not> y \<le> x)"

instance
proof
  fix x y z :: score
  show "x < y \<longleftrightarrow> x \<le> y \<and> \<not> y \<le> x"
    by (simp add: less_score_def)
  show "x \<le> x"
    by (cases x) simp_all
  show "x \<le> y \<Longrightarrow> y \<le> z \<Longrightarrow> x \<le> z"
    by (cases x; cases y; cases z) simp_all
  show "x \<le> y \<Longrightarrow> y \<le> x \<Longrightarrow> x = y"
    by (cases x; cases y) simp_all
  show "x \<le> y \<or> y \<le> x"
    by (cases x; cases y) auto
qed

end

subsection \<open>The evaluator\<close>

definition W_material :: int where "W_material = 10"
definition W_mobility :: int where "W_mobility = 7"
definition W_corner :: int where "W_corner = 40"
definition W_edge :: int where "W_edge = 3"
definition W_stability :: int where "W_stability = 4"

definition corners_idx :: "pos list" where
  "corners_idx = [(0, 0), (0, 7), (7, 0), (7, 7)]"

text \<open>
  The cells the two edge loops visit, in their order: rows 0 and 7 in full, then columns 0
  and 7 for the rows 1 to 6.
\<close>

definition edge_cells :: "pos list" where
  "edge_cells = [(i, j). i \<leftarrow> [0, 7], j \<leftarrow> range8] @ [(i, j). j \<leftarrow> [0, 7], i \<leftarrow> [1, 2, 3, 4, 5, 6]]"

text \<open>The eight neighbour offsets of the stability loop, \<open>(0, 0)\<close> skipped.\<close>

definition neighbour_offsets :: "pos list" where
  "neighbour_offsets = [(di, dj). di \<leftarrow> [- 1, 0, 1], dj \<leftarrow> [- 1, 0, 1], \<not> (di = 0 \<and> dj = 0)]"

definition count_where :: "('a \<Rightarrow> bool) \<Rightarrow> 'a list \<Rightarrow> int" where
  "count_where P xs = int (length (filter P xs))"

definition evaluate_board :: "board \<Rightarrow> int \<Rightarrow> int" where
  "evaluate_board b color =
     (let black_count = int (sum_list (map (\<lambda>row. count_list row BLACK) b));
          white_count = int (sum_list (map (\<lambda>row. count_list row WHITE) b));
          material = (if color = BLACK then black_count - white_count
                      else white_count - black_count);
          my_moves = int (length (get_legal_moves b color));
          opp_moves = int (length (get_legal_moves b (- color)));
          mobility = (if my_moves + opp_moves \<noteq> 0 then my_moves - opp_moves else 0);
          my_corners = count_where (\<lambda>(i, j). cell b i j = color) corners_idx;
          opp_corners = count_where (\<lambda>(i, j). cell b i j = - color) corners_idx;
          corners = my_corners - opp_corners;
          my_edges = count_where (\<lambda>(i, j). cell b i j = color) edge_cells;
          opp_edges = count_where (\<lambda>(i, j). cell b i j \<noteq> color \<and> cell b i j = - color)
                        edge_cells;
          edges = my_edges - opp_edges;
          stability = sum_list (map (\<lambda>(ci, cj).
                        if cell b ci cj = color
                        then 1 + count_where (\<lambda>(di, dj).
                                   0 \<le> ci + di \<and> ci + di < 8 \<and> 0 \<le> cj + dj \<and> cj + dj < 8 \<and>
                                   cell b (ci + di) (cj + dj) = color) neighbour_offsets
                        else 0) corners_idx)
      in W_material * material + W_mobility * mobility + W_corner * corners +
         W_edge * edges + W_stability * stability)"

text \<open>
  \<open>OthelloAI.evaluate\<close> repeats the body of \<open>evaluate_board\<close> with \<open>self.color\<close> and
  \<open>self.game\<close>.
\<close>

definition evaluate :: "int \<Rightarrow> board \<Rightarrow> int" where
  "evaluate self_color b =
     (let black_count = int (sum_list (map (\<lambda>row. count_list row BLACK) b));
          white_count = int (sum_list (map (\<lambda>row. count_list row WHITE) b));
          material = (if self_color = BLACK then black_count - white_count
                      else white_count - black_count);
          my_moves = int (length (get_legal_moves b self_color));
          opp_moves = int (length (get_legal_moves b (- self_color)));
          mobility = (if my_moves + opp_moves \<noteq> 0 then my_moves - opp_moves else 0);
          my_corners = count_where (\<lambda>(i, j). cell b i j = self_color) corners_idx;
          opp_corners = count_where (\<lambda>(i, j). cell b i j = - self_color) corners_idx;
          corners = my_corners - opp_corners;
          my_edges = count_where (\<lambda>(i, j). cell b i j = self_color) edge_cells;
          opp_edges = count_where
                        (\<lambda>(i, j). cell b i j \<noteq> self_color \<and> cell b i j = - self_color)
                        edge_cells;
          edges = my_edges - opp_edges;
          stability = sum_list (map (\<lambda>(ci, cj).
                        if cell b ci cj = self_color
                        then 1 + count_where (\<lambda>(di, dj).
                                   0 \<le> ci + di \<and> ci + di < 8 \<and> 0 \<le> cj + dj \<and> cj + dj < 8 \<and>
                                   cell b (ci + di) (cj + dj) = self_color) neighbour_offsets
                        else 0) corners_idx)
      in W_material * material + W_mobility * mobility + W_corner * corners +
         W_edge * edges + W_stability * stability)"

subsection \<open>Time\<close>

text \<open>
  Every deadline test \<open>(time.time() - start_time) >= TIME_LIMIT\<close> reads the wall clock.
  The model takes the answers from an oracle: the \<open>n\<close>-th test made by a process returns
  \<open>clk n\<close>, and the number of tests made so far is threaded through the search. Unlimited
  time is the oracle that always answers \<open>False\<close> (as \<open>time_exceeded\<close> does while
  \<open>start_time\<close> is \<open>None\<close>).
\<close>

type_synonym clock = "nat \<Rightarrow> bool"

subsection \<open>The worker's alpha-beta (\<open>_parallel_worker\<close>)\<close>

text \<open>
  The loops over the legal moves of a node take the recursive call as the argument
  \<open>rec\<close>. A failing \<open>apply_move\<close> raises, which ends the search with that error.
  The depth is a natural number: the callers pass \<open>depth - 1\<close> for a \<open>depth\<close> from
  \<open>range(1, DMAX + 1)\<close>.
\<close>

type_synonym w_rec = "board \<Rightarrow> score \<Rightarrow> score \<Rightarrow> nat \<Rightarrow> py_error + score \<times> nat"

fun w_max_loop :: "w_rec \<Rightarrow> board \<Rightarrow> int \<Rightarrow> pos list \<Rightarrow> score \<Rightarrow> score \<Rightarrow> score \<Rightarrow> nat
    \<Rightarrow> py_error + score \<times> nat" where
  "w_max_loop rec b node_color [] val alpha beta t = Inr (val, t)"
| "w_max_loop rec b node_color (m # ms) val alpha beta t =
     (case apply_move b (Some m) node_color of
        Inl e \<Rightarrow> Inl e
      | Inr child_board \<Rightarrow>
          (case rec child_board alpha beta t of
             Inl e \<Rightarrow> Inl e
           | Inr (eval_val, t') \<Rightarrow>
               let val' = max val eval_val; alpha' = max alpha eval_val
               in if beta \<le> alpha' then Inr (val', t')
                  else w_max_loop rec b node_color ms val' alpha' beta t'))"

fun w_min_loop :: "w_rec \<Rightarrow> board \<Rightarrow> int \<Rightarrow> pos list \<Rightarrow> score \<Rightarrow> score \<Rightarrow> score \<Rightarrow> nat
    \<Rightarrow> py_error + score \<times> nat" where
  "w_min_loop rec b node_color [] val alpha beta t = Inr (val, t)"
| "w_min_loop rec b node_color (m # ms) val alpha beta t =
     (case apply_move b (Some m) node_color of
        Inl e \<Rightarrow> Inl e
      | Inr child_board \<Rightarrow>
          (case rec child_board alpha beta t of
             Inl e \<Rightarrow> Inl e
           | Inr (eval_val, t') \<Rightarrow>
               let val' = min val eval_val; beta' = min beta eval_val
               in if beta' \<le> alpha then Inr (val', t')
                  else w_min_loop rec b node_color ms val' alpha beta' t'))"

fun alphabeta :: "clock \<Rightarrow> int \<Rightarrow> board \<Rightarrow> nat \<Rightarrow> score \<Rightarrow> score \<Rightarrow> bool \<Rightarrow> nat
    \<Rightarrow> py_error + score \<times> nat" where
  "alphabeta wclk color local_board d alpha beta maximizing t =
     (let node_color = (if maximizing then color else - color);
          lm = get_legal_moves local_board node_color
      in if d = 0 \<or> lm = [] then Inr (Fin (evaluate_board local_board color), t)
         else if wclk t then Inr (Fin (evaluate_board local_board color), Suc t)
         else if maximizing
         then w_max_loop (\<lambda>cb a bt t'. alphabeta wclk color cb (d - 1) a bt False t')
                local_board node_color lm NegInf alpha beta (Suc t)
         else w_min_loop (\<lambda>cb a bt t'. alphabeta wclk color cb (d - 1) a bt True t')
                local_board node_color lm PosInf alpha beta (Suc t))"

declare alphabeta.simps [simp del]

definition parallel_worker :: "clock \<Rightarrow> board \<Rightarrow> pos \<Rightarrow> nat \<Rightarrow> int \<Rightarrow> py_error + pos \<times> score" where
  "parallel_worker wclk b m depth color =
     (case apply_move b (Some m) color of
        Inl e \<Rightarrow> Inl e
      | Inr new_board \<Rightarrow>
          (case alphabeta wclk color new_board (depth - 1) NegInf PosInf False 0 of
             Inl e \<Rightarrow> Inl e
           | Inr (sc, t) \<Rightarrow> Inr (m, sc)))"

subsection \<open>The search of the main process (\<open>OthelloAI\<close>)\<close>

text \<open>
  The fields of the object that the search changes: the number of deadline tests made
  (the position in the oracle), \<open>nodes_evaluated\<close> and \<open>best_move\<close>.
\<close>

record ai_state =
  ticks :: nat
  nodes_evaluated :: nat
  best_move :: "pos option"

definition time_exceeded :: "clock \<Rightarrow> ai_state \<Rightarrow> bool \<times> ai_state" where
  "time_exceeded clk s = (clk (ticks s), s\<lparr>ticks := Suc (ticks s)\<rparr>)"

type_synonym s_result = "py_error + (pos option \<times> score) \<times> ai_state"
type_synonym s_rec = "board \<Rightarrow> score \<Rightarrow> score \<Rightarrow> ai_state \<Rightarrow> s_result"

fun max_loop :: "clock \<Rightarrow> s_rec \<Rightarrow> board \<Rightarrow> int \<Rightarrow> pos list \<Rightarrow> pos option \<Rightarrow> score \<Rightarrow> score
    \<Rightarrow> score \<Rightarrow> ai_state \<Rightarrow> s_result" where
  "max_loop clk rec b color [] bm max_eval alpha beta s = Inr ((bm, max_eval), s)"
| "max_loop clk rec b color (m # ms) bm max_eval alpha beta s =
     (case time_exceeded clk s of
        (True, s1) \<Rightarrow> Inr ((bm, max_eval), s1)
      | (False, s1) \<Rightarrow>
          (case apply_move b (Some m) color of
             Inl e \<Rightarrow> Inl e
           | Inr new_board \<Rightarrow>
               (case rec new_board alpha beta s1 of
                  Inl e \<Rightarrow> Inl e
                | Inr ((mv, eval_val), s2) \<Rightarrow>
                    let upd = (max_eval < eval_val \<or> bm = None);
                        max_eval' = (if upd then eval_val else max_eval);
                        bm' = (if upd then Some m else bm);
                        alpha' = max alpha eval_val
                    in if beta \<le> alpha' then Inr ((bm', max_eval'), s2)
                       else max_loop clk rec b color ms bm' max_eval' alpha' beta s2)))"

fun min_loop :: "clock \<Rightarrow> s_rec \<Rightarrow> board \<Rightarrow> int \<Rightarrow> pos list \<Rightarrow> pos option \<Rightarrow> score \<Rightarrow> score
    \<Rightarrow> score \<Rightarrow> ai_state \<Rightarrow> s_result" where
  "min_loop clk rec b color [] bm min_eval alpha beta s = Inr ((bm, min_eval), s)"
| "min_loop clk rec b color (m # ms) bm min_eval alpha beta s =
     (case time_exceeded clk s of
        (True, s1) \<Rightarrow> Inr ((bm, min_eval), s1)
      | (False, s1) \<Rightarrow>
          (case apply_move b (Some m) color of
             Inl e \<Rightarrow> Inl e
           | Inr new_board \<Rightarrow>
               (case rec new_board alpha beta s1 of
                  Inl e \<Rightarrow> Inl e
                | Inr ((mv, eval_val), s2) \<Rightarrow>
                    let upd = (eval_val < min_eval \<or> bm = None);
                        min_eval' = (if upd then eval_val else min_eval);
                        bm' = (if upd then Some m else bm);
                        beta' = min beta eval_val
                    in if beta' \<le> alpha then Inr ((bm', min_eval'), s2)
                       else min_loop clk rec b color ms bm' min_eval' alpha beta' s2)))"

fun alphabeta_search :: "clock \<Rightarrow> int \<Rightarrow> board \<Rightarrow> nat \<Rightarrow> score \<Rightarrow> score \<Rightarrow> bool \<Rightarrow> ai_state
    \<Rightarrow> s_result" where
  "alphabeta_search clk self_color b depth alpha beta maximizing_player s =
     (let s0 = s\<lparr>nodes_evaluated := nodes_evaluated s + 1\<rparr>;
          color = (if maximizing_player then self_color else - self_color);
          lm = get_legal_moves b color
      in if depth = 0 \<or> lm = [] then Inr ((None, Fin (evaluate self_color b)), s0)
         else (case time_exceeded clk s0 of
                 (True, s1) \<Rightarrow> Inr ((None, Fin (evaluate self_color b)), s1)
               | (False, s1) \<Rightarrow>
                   if maximizing_player
                   then max_loop clk
                          (\<lambda>nb a bt s'. alphabeta_search clk self_color nb (depth - 1) a bt False s')
                          b color lm None NegInf alpha beta s1
                   else min_loop clk
                          (\<lambda>nb a bt s'. alphabeta_search clk self_color nb (depth - 1) a bt True s')
                          b color lm None PosInf alpha beta s1))"

declare alphabeta_search.simps [simp del]

fun root_loop :: "clock \<Rightarrow> int \<Rightarrow> board \<Rightarrow> nat \<Rightarrow> pos list \<Rightarrow> pos option \<Rightarrow> score \<Rightarrow> score
    \<Rightarrow> ai_state \<Rightarrow> s_result" where
  "root_loop clk self_color b depth [] bm best_score alpha s = Inr ((bm, best_score), s)"
| "root_loop clk self_color b depth (m # ms) bm best_score alpha s =
     (case time_exceeded clk s of
        (True, s1) \<Rightarrow> Inr ((bm, best_score), s1)
      | (False, s1) \<Rightarrow>
          (case apply_move b (Some m) self_color of
             Inl e \<Rightarrow> Inl e
           | Inr new_board \<Rightarrow>
               (case alphabeta_search clk self_color new_board (depth - 1) alpha PosInf False s1 of
                  Inl e \<Rightarrow> Inl e
                | Inr ((mv, eval_val), s2) \<Rightarrow>
                    let upd = (best_score < eval_val \<or> bm = None);
                        best_score' = (if upd then eval_val else best_score);
                        bm' = (if upd then Some m else bm);
                        alpha' = max alpha eval_val
                    in root_loop clk self_color b depth ms bm' best_score' alpha' s2)))"

definition root_search_sequential :: "clock \<Rightarrow> int \<Rightarrow> board \<Rightarrow> pos list \<Rightarrow> nat \<Rightarrow> ai_state
    \<Rightarrow> s_result" where
  "root_search_sequential clk self_color b moves depth s =
     root_loop clk self_color b depth moves None NegInf NegInf s"

text \<open>
  What the parallel root search takes from its surroundings: the number of processors, whether
  creating or running the pool raises, and the clock that the worker of each task reads.
\<close>

record par_env =
  cpu_count :: nat
  pool_raises :: bool
  worker_clock :: "nat \<Rightarrow> clock"

text \<open>\<open>pool.map\<close>: the results in the order of the tasks, or the first exception.\<close>

fun pool_map :: "(py_error + 'a) list \<Rightarrow> py_error + 'a list" where
  "pool_map [] = Inr []"
| "pool_map (Inl e # rs) = Inl e"
| "pool_map (Inr x # rs) = (case pool_map rs of Inl e \<Rightarrow> Inl e | Inr xs \<Rightarrow> Inr (x # xs))"

text \<open>
  \<open>max(results, key=lambda x: x[1])\<close>: the first item whose key is maximal;
  \<open>ValueError\<close> on an empty list.
\<close>

fun max_by_score :: "pos \<times> score \<Rightarrow> (pos \<times> score) list \<Rightarrow> pos \<times> score" where
  "max_by_score best [] = best"
| "max_by_score best (x # xs) = max_by_score (if snd best < snd x then x else best) xs"

definition py_max_results :: "(pos \<times> score) list \<Rightarrow> py_error + pos \<times> score" where
  "py_max_results rs = (case rs of [] \<Rightarrow> Inl ValueError | x # xs \<Rightarrow> Inr (max_by_score x xs))"

definition root_search_parallel :: "clock \<Rightarrow> par_env \<Rightarrow> int \<Rightarrow> board \<Rightarrow> pos list \<Rightarrow> nat
    \<Rightarrow> ai_state \<Rightarrow> s_result" where
  "root_search_parallel clk env self_color b moves depth s =
     (case time_exceeded clk s of
        (True, s1) \<Rightarrow> Inr ((best_move s1, NegInf), s1)
      | (False, s1) \<Rightarrow>
          let n_procs = min (cpu_count env) (length moves)
          in if n_procs \<le> 1 then root_search_sequential clk self_color b moves depth s1
             else if pool_raises env then root_search_sequential clk self_color b moves depth s1
             else (case pool_map (map (\<lambda>(i, m). parallel_worker (worker_clock env i) b m depth
                                                   self_color)
                                      (zip [0 ..< length moves] moves)) of
                     Inl e \<Rightarrow> root_search_sequential clk self_color b moves depth s1
                   | Inr results \<Rightarrow>
                       (case py_max_results results of
                          Inl e \<Rightarrow> Inl e
                        | Inr (bm, best_score) \<Rightarrow> Inr ((Some bm, best_score), s1))))"




subsection \<open>Full-width minimax\<close>

text \<open>
  The reference the pruning search is compared with: the same depth bound, the same leaf test
  (depth exhausted or no legal move for the side to move) and the same evaluator, every
  child visited, and the first move with the best score chosen. \<open>successor\<close> is the
  position after a move; \<open>apply_move\<close> does not fail on a legal move of an 8 by 8 board.
\<close>

definition successor :: "board \<Rightarrow> pos \<Rightarrow> int \<Rightarrow> board" where
  "successor b m color = (case apply_move b (Some m) color of Inr nb \<Rightarrow> nb | Inl e \<Rightarrow> b)"

fun first_best :: "(score \<Rightarrow> score \<Rightarrow> bool) \<Rightarrow> pos option \<times> score \<Rightarrow> (pos \<times> score) list
    \<Rightarrow> pos option \<times> score" where
  "first_best better best [] = best"
| "first_best better best ((m, v) # xs) =
     first_best better (if better v (snd best) \<or> fst best = None then (Some m, v) else best) xs"

fun minimax :: "int \<Rightarrow> board \<Rightarrow> nat \<Rightarrow> bool \<Rightarrow> pos option \<times> score" where
  "minimax self_color b depth maximizing =
     (let color = (if maximizing then self_color else - self_color);
          lm = get_legal_moves b color
      in if depth = 0 \<or> lm = [] then (None, Fin (evaluate self_color b))
         else if maximizing
         then first_best (\<lambda>v w. w < v) (None, NegInf)
                (map (\<lambda>m. (m, snd (minimax self_color (successor b m color) (depth - 1) False))) lm)
         else first_best (\<lambda>v w. v < w) (None, PosInf)
                (map (\<lambda>m. (m, snd (minimax self_color (successor b m color) (depth - 1) True))) lm))"

declare minimax.simps [simp del]

subsection \<open>Sample surroundings\<close>

text \<open>An object as \<open>__init__\<close> leaves it, and a machine with four processors.\<close>

definition demo_env :: "nat \<Rightarrow> par_env" where
  "demo_env d = \<lparr>cpu_count = 4, pool_raises = False, worker_clock = (\<lambda>i n. False)\<rparr>"

definition fresh_ai :: ai_state where
  "fresh_ai = \<lparr>ticks = 0, nodes_evaluated = 0, best_move = None\<rparr>"

subsection \<open>Approximation within a window\<close>

text \<open>
  What a pruning search called with the window \<open>(a, b)\<close> may return for a position of true
  value \<open>v\<close>: the value itself when it lies inside the window, otherwise a bound on the side
  on which the search failed.
\<close>

definition fail_soft :: "score \<Rightarrow> score \<Rightarrow> score \<Rightarrow> score \<Rightarrow> bool" where
  "fail_soft a b v ab = ((ab \<le> a \<longrightarrow> v \<le> ab) \<and> (a < ab \<and> ab < b \<longrightarrow> ab = v) \<and> (b \<le> ab \<longrightarrow> ab \<le> v))"

section \<open>Facts about boards and the scan\<close>

lemma valid_pos_nat: "is_valid_position r c \<Longrightarrow> nat r < 8 \<and> nat c < 8"
  unfolding is_valid_position_def BOARD_SIZE_def by linarith

lemma wf_board_row: "wf_board b \<Longrightarrow> i < 8 \<Longrightarrow> length (b ! i) = 8"
  by (simp add: wf_board_def list_all_length)

lemma wf_set_cell: "wf_board b \<Longrightarrow> wf_board (set_cell b r c v)"
  by (cases "nat r < length b")
     (auto simp: wf_board_def set_cell_def list_all_length nth_list_update)

lemma wf_set_cells: "wf_board b \<Longrightarrow> wf_board (set_cells b ps v)"
  by (induction b ps v rule: set_cells.induct) (simp_all add: wf_set_cell)

lemma cell_set_cell:
  assumes "wf_board b" "is_valid_position r c" "is_valid_position r' c'"
  shows "cell (set_cell b r c v) r' c' = (if r' = r \<and> c' = c then v else cell b r' c')"
proof -
  from assms have n: "nat r < length b" "nat r' < length b" "nat c < length (b ! nat r)"
    using valid_pos_nat wf_board_row by (auto simp: wf_board_def)
  from assms(2,3) have eq: "nat r' = nat r \<longleftrightarrow> r' = r" "nat c' = nat c \<longleftrightarrow> c' = c"
    by (auto simp: is_valid_position_def)
  show ?thesis using n eq
    by (auto simp: cell_def set_cell_def nth_list_update)
qed

lemma cell_set_cells:
  "wf_board b \<Longrightarrow> list_all (\<lambda>p. is_valid_position (fst p) (snd p)) ps \<Longrightarrow>
   is_valid_position r c \<Longrightarrow>
   cell (set_cells b ps v) r c = (if (r, c) \<in> set ps then v else cell b r c)"
proof (induction b ps v rule: set_cells.induct)
  case (1 b v)
  then show ?case by simp
next
  case (2 b r' c' ps v)
  then show ?case
    by (auto simp: wf_set_cell cell_set_cell)
qed

lemma board_ext:
  assumes "wf_board a" "wf_board b"
    and "\<And>r c. is_valid_position r c \<Longrightarrow> cell a r c = cell b r c"
  shows "a = b"
proof (rule nth_equalityI)
  show "length a = length b" using assms by (simp add: wf_board_def)
next
  fix i assume i: "i < length a"
  then have i8: "i < 8" using assms(1) by (simp add: wf_board_def)
  show "a ! i = b ! i"
  proof (rule nth_equalityI)
    show "length (a ! i) = length (b ! i)"
      using assms(1,2) i8 by (simp add: wf_board_row)
  next
    fix j assume "j < length (a ! i)"
    then have j8: "j < 8" using assms(1) i8 by (simp add: wf_board_row)
    have "is_valid_position (int i) (int j)"
      using i8 j8 by (simp add: is_valid_position_def BOARD_SIZE_def)
    from assms(3) [OF this] show "a ! i ! j = b ! i ! j"
      by (simp add: cell_def)
  qed
qed

lemma walk_cells:
  "p \<in> set (fst (walk b opp d r c)) \<Longrightarrow>
   is_valid_position (fst p) (snd p) \<and> cell b (fst p) (snd p) = opp"
proof (induction b opp d r c rule: walk.induct)
  case (1 b opp dr dc r c)
  show ?case
  proof (cases "(dr, dc) \<noteq> (0, 0) \<and> is_valid_position r c \<and> cell b r c = opp")
    case True
    with "1.prems" have "p = (r, c) \<or> p \<in> set (fst (walk b opp (dr, dc) (r + dr) (c + dc)))"
      by (subst (asm) walk.simps) (auto split: prod.splits)
    with True "1.IH" show ?thesis by auto
  next
    case False
    with "1.prems" show ?thesis by (subst (asm) walk.simps) auto
  qed
qed

lemma get_opponent_not_EMPTY: "get_opponent color \<noteq> EMPTY"
  by (simp add: get_opponent_def EMPTY_def BLACK_def WHITE_def)

lemma dir_flips_cells:
  "p \<in> set (dir_flips b row col color d) \<Longrightarrow>
   is_valid_position (fst p) (snd p) \<and> cell b (fst p) (snd p) = get_opponent color"
proof -
  assume p: "p \<in> set (dir_flips b row col color d)"
  obtain fl r c where w: "walk b (get_opponent color) d (row + fst d) (col + snd d) = (fl, r, c)"
    by (cases "walk b (get_opponent color) d (row + fst d) (col + snd d)") auto
  from p w have "p \<in> set fl"
    by (simp add: dir_flips_def split: if_splits)
  then have "p \<in> set (fst (walk b (get_opponent color) d (row + fst d) (col + snd d)))"
    by (simp add: w)
  then show ?thesis by (rule walk_cells)
qed

lemma flip_discs_cells:
  "p \<in> set (flip_discs b row col color) \<Longrightarrow>
   is_valid_position (fst p) (snd p) \<and> cell b (fst p) (snd p) = get_opponent color"
  using dir_flips_cells by (fastforce simp: flip_discs_def split: if_splits)

lemma is_valid_move_empty:
  "is_valid_move b row col color \<Longrightarrow> is_valid_position row col \<and> cell b row col = EMPTY"
  by (auto simp: is_valid_move_def split: if_splits)

lemma py_set_cell_valid:
  assumes "wf_board b" "is_valid_position row col"
  shows "py_set_cell b row col v = Inr (set_cell b row col v)"
proof -
  from assms(2) have r: "0 \<le> row" "row < 8" "0 \<le> col" "col < 8"
    by (simp_all add: is_valid_position_def BOARD_SIZE_def)
  then have "nat row < 8" by linarith
  with assms(1) have "length b = 8" "length (b ! nat row) = 8"
    by (simp_all add: wf_board_def wf_board_row)
  with r show ?thesis
    by (simp add: py_set_cell_def py_index_def set_cell_def)
qed

lemma walk_valid: "list_all (\<lambda>p. is_valid_position (fst p) (snd p)) (fst (walk b opp d r c))"
  by (auto simp: list_all_iff dest: walk_cells)

lemma apply_dir_inv:
  assumes "wf_board nb" "is_valid_position row col" "cell nb row col = color"
  shows "wf_board (apply_dir row col color nb d) \<and> cell (apply_dir row col color nb d) row col = color"
proof -
  obtain fl r c where w: "walk nb (get_opponent color) d (row + fst d) (col + snd d) = (fl, r, c)"
    by (cases "walk nb (get_opponent color) d (row + fst d) (col + snd d)") auto
  have "list_all (\<lambda>p. is_valid_position (fst p) (snd p)) fl"
    using walk_valid [of nb "get_opponent color" d "row + fst d" "col + snd d"] by (simp add: w)
  with assms show ?thesis
    by (simp add: apply_dir_def w wf_set_cells cell_set_cells)
qed

lemma foldl_apply_dir_inv:
  "wf_board nb \<Longrightarrow> is_valid_position row col \<Longrightarrow> cell nb row col = color \<Longrightarrow>
   wf_board (foldl (apply_dir row col color) nb ds) \<and>
   cell (foldl (apply_dir row col color) nb ds) row col = color"
  by (induction ds arbitrary: nb) (simp_all add: apply_dir_inv)

lemma apply_move_valid_position:
  assumes "wf_board b" "is_valid_position row col"
  shows "\<exists>nb. apply_move b (Some (row, col)) color = Inr nb \<and> wf_board nb \<and> cell nb row col = color"
proof -
  have "wf_board (set_cell b row col color)" "cell (set_cell b row col color) row col = color"
    using assms by (simp_all add: wf_set_cell cell_set_cell)
  from foldl_apply_dir_inv [OF this(1) assms(2) this(2)] show ?thesis
    using assms by (simp add: apply_move_def py_set_cell_valid)
qed

lemma concat_map_if:
  "concat (map (\<lambda>j. if P j then [f j] else []) xs) = map f (filter P xs)"
  by (induction xs) simp_all

lemma full_no_legal_moves:
  assumes "wf_board b" "board_full b"
  shows "legal_moves b color = []"
proof -
  have "\<not> is_valid_move b i j color" for i j
  proof (cases "is_valid_position i j")
    case True
    then have "nat i < 8" "nat j < 8" using valid_pos_nat by simp_all
    with assms have "b ! nat i ! nat j \<noteq> EMPTY"
      by (simp add: wf_board_def board_full_def list_all_length)
    then show ?thesis by (simp add: is_valid_move_def cell_def)
  next
    case False
    then show ?thesis by (simp add: is_valid_move_def)
  qed
  then show ?thesis by (simp add: legal_moves_def)
qed

text \<open>No step of \<open>DIRECTIONS\<close> is zero, so the scan never takes its extra exit.\<close>

lemma directions_nonzero: "d \<in> set DIRECTIONS \<Longrightarrow> d \<noteq> (0, 0)"
  by (auto simp: DIRECTIONS_def)

section \<open>Facts about the search\<close>

lemma get_legal_moves_valid:
  "m \<in> set (get_legal_moves b c) \<Longrightarrow> is_valid_position (fst m) (snd m)"
proof -
  assume "m \<in> set (get_legal_moves b c)"
  then have "fst m \<in> set range8 \<and> snd m \<in> set range8"
    unfolding get_legal_moves_def by (auto split: if_splits)
  then show ?thesis
    by (auto simp: range8_def is_valid_position_def BOARD_SIZE_def)
qed

lemma apply_move_legal:
  assumes "wf_board b" "m \<in> set (get_legal_moves b c)"
  shows "apply_move b (Some m) c' = Inr (successor b m c') \<and> wf_board (successor b m c')"
proof -
  from get_legal_moves_valid [OF assms(2)] have "is_valid_position (fst m) (snd m)" .
  from apply_move_valid_position [OF assms(1) this, of c']
  show ?thesis by (auto simp: successor_def)
qed

text \<open>One iteration of each loop, once the results of its calls are known.\<close>

lemma max_loop_timeout:
  "clk (ticks s) \<Longrightarrow>
   max_loop clk rec b c (m # ms) bm mx a bt s = Inr ((bm, mx), s\<lparr>ticks := Suc (ticks s)\<rparr>)"
  by (simp add: time_exceeded_def)

lemma max_loop_step:
  "\<not> clk (ticks s) \<Longrightarrow> apply_move b (Some m) c = Inr nb \<Longrightarrow>
   rec nb a bt (s\<lparr>ticks := Suc (ticks s)\<rparr>) = Inr ((mv, ev), s2) \<Longrightarrow>
   max_loop clk rec b c (m # ms) bm mx a bt s =
     (if bt \<le> max a ev
      then Inr ((if mx < ev \<or> bm = None then Some m else bm,
                 if mx < ev \<or> bm = None then ev else mx), s2)
      else max_loop clk rec b c ms (if mx < ev \<or> bm = None then Some m else bm)
             (if mx < ev \<or> bm = None then ev else mx) (max a ev) bt s2)"
  by (simp add: time_exceeded_def Let_def)

lemma min_loop_timeout:
  "clk (ticks s) \<Longrightarrow>
   min_loop clk rec b c (m # ms) bm mn a bt s = Inr ((bm, mn), s\<lparr>ticks := Suc (ticks s)\<rparr>)"
  by (simp add: time_exceeded_def)

lemma min_loop_step:
  "\<not> clk (ticks s) \<Longrightarrow> apply_move b (Some m) c = Inr nb \<Longrightarrow>
   rec nb a bt (s\<lparr>ticks := Suc (ticks s)\<rparr>) = Inr ((mv, ev), s2) \<Longrightarrow>
   min_loop clk rec b c (m # ms) bm mn a bt s =
     (if min bt ev \<le> a
      then Inr ((if ev < mn \<or> bm = None then Some m else bm,
                 if ev < mn \<or> bm = None then ev else mn), s2)
      else min_loop clk rec b c ms (if ev < mn \<or> bm = None then Some m else bm)
             (if ev < mn \<or> bm = None then ev else mn) a (min bt ev) s2)"
  by (simp add: time_exceeded_def Let_def)

lemma root_loop_timeout:
  "clk (ticks s) \<Longrightarrow>
   root_loop clk sc b d (m # ms) bm bs a s = Inr ((bm, bs), s\<lparr>ticks := Suc (ticks s)\<rparr>)"
  by (simp add: time_exceeded_def)

lemma root_loop_step:
  "\<not> clk (ticks s) \<Longrightarrow> apply_move b (Some m) sc = Inr nb \<Longrightarrow>
   alphabeta_search clk sc nb (d - 1) a PosInf False (s\<lparr>ticks := Suc (ticks s)\<rparr>) =
     Inr ((mv, ev), s2) \<Longrightarrow>
   root_loop clk sc b d (m # ms) bm bs a s =
     root_loop clk sc b d ms (if bs < ev \<or> bm = None then Some m else bm)
       (if bs < ev \<or> bm = None then ev else bs) (max a ev) s2"
  by (simp add: time_exceeded_def Let_def)

lemma w_max_loop_step:
  "apply_move b (Some m) c = Inr nb \<Longrightarrow> rec nb a bt t = Inr (ev, t') \<Longrightarrow>
   w_max_loop rec b c (m # ms) v a bt t =
     (if bt \<le> max a ev then Inr (max v ev, t')
      else w_max_loop rec b c ms (max v ev) (max a ev) bt t')"
  by (simp add: Let_def)

lemma w_min_loop_step:
  "apply_move b (Some m) c = Inr nb \<Longrightarrow> rec nb a bt t = Inr (ev, t') \<Longrightarrow>
   w_min_loop rec b c (m # ms) v a bt t =
     (if min bt ev \<le> a then Inr (min v ev, t')
      else w_min_loop rec b c ms (min v ev) a (min bt ev) t')"
  by (simp add: Let_def)

declare max_loop.simps(2) [simp del]
declare min_loop.simps(2) [simp del]
declare root_loop.simps(2) [simp del]
declare w_max_loop.simps(2) [simp del]
declare w_min_loop.simps(2) [simp del]

text \<open>The search returns on every 8 by 8 board, whatever the clock answers.\<close>

lemma max_loop_total:
  assumes rec: "\<And>nb a bt s. wf_board nb \<Longrightarrow>
                  \<exists>r s'. rec nb a bt s = Inr (r, s') \<and> best_move s' = best_move s"
    and wf: "wf_board b"
  shows "set ms \<subseteq> set (get_legal_moves b c) \<Longrightarrow>
         \<exists>r s'. max_loop clk rec b c' ms bm mx alpha beta s = Inr (r, s') \<and>
                best_move s' = best_move s"
proof (induction ms arbitrary: bm mx alpha s)
  case Nil
  then show ?case by simp
next
  case (Cons m ms)
  let ?s1 = "s\<lparr>ticks := Suc (ticks s)\<rparr>"
  from Cons.prems have m: "m \<in> set (get_legal_moves b c)"
    and ms: "set ms \<subseteq> set (get_legal_moves b c)"
    by simp_all
  note am = apply_move_legal [OF wf m, of c']
  from rec [of "successor b m c'" alpha beta ?s1] am obtain mv ev s2 where
    r: "rec (successor b m c') alpha beta ?s1 = Inr ((mv, ev), s2)"
    and bm2: "best_move s2 = best_move s"
    by fastforce
  show ?case
  proof (cases "clk (ticks s)")
    case True
    then show ?thesis by (simp add: max_loop_timeout)
  next
    case False
    note step = max_loop_step [where rec = rec and clk = clk and ms = ms and bm = bm and mx = mx,
        OF False conjunct1 [OF am] r]
    show ?thesis
    proof (cases "beta \<le> max alpha ev")
      case True
      then show ?thesis using bm2 by (simp add: step)
    next
      case False
      from Cons.IH [OF ms, of _ _ _ s2] bm2 False show ?thesis
        by (simp add: step)
    qed
  qed
qed

lemma min_loop_total:
  assumes rec: "\<And>nb a bt s. wf_board nb \<Longrightarrow>
                  \<exists>r s'. rec nb a bt s = Inr (r, s') \<and> best_move s' = best_move s"
    and wf: "wf_board b"
  shows "set ms \<subseteq> set (get_legal_moves b c) \<Longrightarrow>
         \<exists>r s'. min_loop clk rec b c' ms bm mn alpha beta s = Inr (r, s') \<and>
                best_move s' = best_move s"
proof (induction ms arbitrary: bm mn beta s)
  case Nil
  then show ?case by simp
next
  case (Cons m ms)
  let ?s1 = "s\<lparr>ticks := Suc (ticks s)\<rparr>"
  from Cons.prems have m: "m \<in> set (get_legal_moves b c)"
    and ms: "set ms \<subseteq> set (get_legal_moves b c)"
    by simp_all
  note am = apply_move_legal [OF wf m, of c']
  from rec [of "successor b m c'" alpha beta ?s1] am obtain mv ev s2 where
    r: "rec (successor b m c') alpha beta ?s1 = Inr ((mv, ev), s2)"
    and bm2: "best_move s2 = best_move s"
    by fastforce
  show ?case
  proof (cases "clk (ticks s)")
    case True
    then show ?thesis by (simp add: min_loop_timeout)
  next
    case False
    note step = min_loop_step [where rec = rec and clk = clk and ms = ms and bm = bm and mn = mn,
        OF False conjunct1 [OF am] r]
    show ?thesis
    proof (cases "min beta ev \<le> alpha")
      case True
      then show ?thesis using bm2 by (simp add: step)
    next
      case False
      from Cons.IH [OF ms, of _ _ _ s2] bm2 False show ?thesis
        by (simp add: step)
    qed
  qed
qed

lemma alphabeta_search_total:
  "wf_board b \<Longrightarrow>
   \<exists>r s'. alphabeta_search clk sc b d alpha beta mxp s = Inr (r, s') \<and>
          best_move s' = best_move s"
proof (induction d arbitrary: b alpha beta mxp s)
  case 0
  then show ?case by (simp add: alphabeta_search.simps)
next
  case (Suc d)
  let ?s0 = "s\<lparr>nodes_evaluated := nodes_evaluated s + 1\<rparr>"
  let ?s1 = "?s0\<lparr>ticks := Suc (ticks ?s0)\<rparr>"
  let ?c = "if mxp then sc else - sc"
  have mx: "\<exists>r s'. max_loop clk (\<lambda>nb a bt s'. alphabeta_search clk sc nb d a bt False s') b ?c
                     (get_legal_moves b ?c) None NegInf alpha beta ?s1 = Inr (r, s') \<and>
                   best_move s' = best_move ?s1"
    by (rule max_loop_total [where c = ?c, OF Suc.IH Suc.prems]) simp_all
  have mn: "\<exists>r s'. min_loop clk (\<lambda>nb a bt s'. alphabeta_search clk sc nb d a bt True s') b ?c
                     (get_legal_moves b ?c) None PosInf alpha beta ?s1 = Inr (r, s') \<and>
                   best_move s' = best_move ?s1"
    by (rule min_loop_total [where c = ?c, OF Suc.IH Suc.prems]) simp_all
  show ?case
    using mx mn
    by (subst alphabeta_search.simps) (auto simp: Let_def time_exceeded_def split: bool.splits)
qed

lemma root_loop_total:
  assumes wf: "wf_board b"
  shows "set ms \<subseteq> set (get_legal_moves b c) \<Longrightarrow>
         \<exists>mv v s'. root_loop clk sc b d ms bm bs alpha s = Inr ((mv, v), s') \<and>
                   best_move s' = best_move s \<and> (mv = bm \<or> mv \<in> Some ` set ms)"
proof (induction ms arbitrary: bm bs alpha s)
  case Nil
  then show ?case by simp
next
  case (Cons m ms)
  let ?s1 = "s\<lparr>ticks := Suc (ticks s)\<rparr>"
  from Cons.prems have m: "m \<in> set (get_legal_moves b c)"
    and ms: "set ms \<subseteq> set (get_legal_moves b c)"
    by simp_all
  note am = apply_move_legal [OF wf m, of sc]
  from alphabeta_search_total [of "successor b m sc" clk sc "d - 1" alpha PosInf False ?s1] am
  obtain mv ev s2 where
    r: "alphabeta_search clk sc (successor b m sc) (d - 1) alpha PosInf False ?s1 =
          Inr ((mv, ev), s2)"
    and bm2: "best_move s2 = best_move s"
    by fastforce
  show ?case
  proof (cases "clk (ticks s)")
    case True
    then show ?thesis by (simp add: root_loop_timeout)
  next
    case False
    note step = root_loop_step [where ms = ms and bm = bm and bs = bs,
        OF False conjunct1 [OF am] r]
    from Cons.IH [OF ms, of "if bs < ev \<or> bm = None then Some m else bm"
        "if bs < ev \<or> bm = None then ev else bs" "max alpha ev" s2]
    show ?thesis
      unfolding step using bm2 by (auto split: if_splits)
  qed
qed

lemma root_search_sequential_total:
  assumes "wf_board b" "set ms \<subseteq> set (get_legal_moves b c)"
  shows "\<exists>mv v s'. root_search_sequential clk sc b ms d s = Inr ((mv, v), s') \<and>
                   best_move s' = best_move s \<and> (mv = None \<or> mv \<in> Some ` set ms)"
  unfolding root_search_sequential_def by (rule root_loop_total [OF assms])





lemma root_search_parallel_fallback:
  "\<not> clk (ticks s) \<Longrightarrow>
   min (cpu_count env) (length ms) \<le> 1 \<or> pool_raises env \<or>
   (\<exists>e. pool_map (map (\<lambda>(i, m). parallel_worker (worker_clock env i) b m d sc)
                    (zip [0 ..< length ms] ms)) = Inl e) \<Longrightarrow>
   root_search_parallel clk env sc b ms d s =
     root_search_sequential clk sc b ms d (s\<lparr>ticks := Suc (ticks s)\<rparr>)"
  by (auto simp: root_search_parallel_def time_exceeded_def Let_def)

lemma root_search_parallel_results:
  "\<not> clk (ticks s) \<Longrightarrow> \<not> min (cpu_count env) (length ms) \<le> 1 \<Longrightarrow> \<not> pool_raises env \<Longrightarrow>
   pool_map (map (\<lambda>(i, m). parallel_worker (worker_clock env i) b m d sc)
              (zip [0 ..< length ms] ms)) = Inr (x # xs) \<Longrightarrow>
   root_search_parallel clk env sc b ms d s =
     Inr ((Some (fst (max_by_score x xs)), snd (max_by_score x xs)),
          s\<lparr>ticks := Suc (ticks s)\<rparr>)"
  by (simp add: root_search_parallel_def time_exceeded_def Let_def py_max_results_def
        split: prod.splits)



text \<open>Order facts about scores and windows.\<close>

lemma fail_soft_refl: "fail_soft a b v v"
  by (simp add: fail_soft_def)

lemma NegInf_least [simp]: "NegInf \<le> x"
  by simp

lemma PosInf_greatest [simp]: "x \<le> PosInf"
  by (cases x) simp_all

lemma PosInf_le_iff [simp]: "PosInf \<le> x \<longleftrightarrow> x = PosInf"
  by (cases x) simp_all

lemma le_NegInf_iff [simp]: "x \<le> NegInf \<longleftrightarrow> x = NegInf"
  by (cases x) simp_all

lemma less_PosInf_iff [simp]: "x < PosInf \<longleftrightarrow> x \<noteq> PosInf"
  by (cases x) (simp_all add: less_score_def)

lemma NegInf_less_iff [simp]: "NegInf < x \<longleftrightarrow> x \<noteq> NegInf"
  by (cases x) (simp_all add: less_score_def)

lemma fail_soft_full: "fail_soft NegInf PosInf v ab \<Longrightarrow> ab = v"
  by (cases ab; cases v) (auto simp: fail_soft_def less_score_def)

lemma foldl_max_ge: "(x :: score) \<le> foldl max x xs"
proof (induction xs arbitrary: x)
  case Nil
  show ?case by simp
next
  case (Cons y ys)
  have "x \<le> max x y" by simp
  also have "\<dots> \<le> foldl max (max x y) ys" by (rule Cons.IH)
  finally show ?case by simp
qed

lemma foldl_min_le: "foldl min (x :: score) xs \<le> x"
proof (induction xs arbitrary: x)
  case Nil
  show ?case by simp
next
  case (Cons y ys)
  have "foldl min (min x y) ys \<le> min x y" by (rule Cons.IH)
  also have "\<dots> \<le> x" by simp
  finally show ?case by simp
qed

lemma max_step_inv:
  assumes "fail_soft alpha bt t ev" "alpha = max a0 val" "max alpha ev < bt"
    "val \<le> a0 \<longrightarrow> tp \<le> val" "a0 < val \<longrightarrow> val = tp"
  shows "(max val ev \<le> a0 \<longrightarrow> max tp t \<le> max val ev) \<and>
         (a0 < max val ev \<longrightarrow> max val ev = max tp t)"
  using assms unfolding fail_soft_def max_def
  by (auto split: if_splits)

lemma max_step_cut:
  assumes "fail_soft alpha bt t ev" "alpha = max a0 val" "alpha < bt" "bt \<le> max alpha ev"
    "t \<le> T"
  shows "fail_soft a0 bt T (max val ev)"
  using assms unfolding fail_soft_def max_def
  by (auto split: if_splits)

lemma min_step_inv:
  assumes "fail_soft alpha beta t ev" "beta = min b0 val" "alpha < min beta ev"
    "b0 \<le> val \<longrightarrow> val \<le> tp" "val < b0 \<longrightarrow> val = tp"
  shows "(b0 \<le> min val ev \<longrightarrow> min val ev \<le> min tp t) \<and>
         (min val ev < b0 \<longrightarrow> min val ev = min tp t)"
  using assms unfolding fail_soft_def min_def
  by (auto split: if_splits)

lemma min_step_cut:
  assumes "fail_soft alpha beta t ev" "beta = min b0 val" "alpha < beta" "min beta ev \<le> alpha"
    "T \<le> t"
  shows "fail_soft alpha b0 T (min val ev)"
  using assms unfolding fail_soft_def min_def
  by (auto split: if_splits)

lemma first_best_max_value:
  "(bm = None \<longrightarrow> x = NegInf) \<Longrightarrow>
   snd (first_best (\<lambda>v w. w < v) (bm, x) xs) = foldl max x (map snd xs)"
proof (induction xs arbitrary: bm x)
  case Nil
  show ?case by simp
next
  case (Cons p xs)
  obtain m v where p: "p = (m, v)" by (cases p)
  show ?case
  proof (cases "x < v \<or> bm = None")
    case True
    with Cons.prems have "max x v = v" by (auto simp: max_def)
    with True Cons.IH [of "Some m" v] show ?thesis by (simp add: p)
  next
    case False
    then have "max x v = x" by (auto simp: max_def)
    with False Cons.IH [OF Cons.prems] show ?thesis by (auto simp: p)
  qed
qed

lemma first_best_min_value:
  "(bm = None \<longrightarrow> x = PosInf) \<Longrightarrow>
   snd (first_best (\<lambda>v w. v < w) (bm, x) xs) = foldl min x (map snd xs)"
proof (induction xs arbitrary: bm x)
  case Nil
  show ?case by simp
next
  case (Cons p xs)
  obtain m v where p: "p = (m, v)" by (cases p)
  show ?case
  proof (cases "v < x \<or> bm = None")
    case True
    with Cons.prems have "min x v = v" by (auto simp: min_def)
    with True Cons.IH [of "Some m" v] show ?thesis by (simp add: p)
  next
    case False
    then have "min x v = x" by (auto simp: min_def)
    with False Cons.IH [OF Cons.prems] show ?thesis by (auto simp: p)
  qed
qed


text \<open>With unlimited time the pruning searches approximate the minimax value within their window.\<close>

lemma evaluate_board_eq: "evaluate_board b sc = evaluate sc b"
  by (simp add: evaluate_board_def evaluate_def)

lemma minimax_leaf:
  "d = 0 \<or> get_legal_moves b (if mx then sc else - sc) = [] \<Longrightarrow>
   minimax sc b d mx = (None, Fin (evaluate sc b))"
  by (subst minimax.simps) (auto simp: Let_def)

lemma minimax_max:
  "get_legal_moves b sc \<noteq> [] \<Longrightarrow>
   minimax sc b (Suc d) True =
     first_best (\<lambda>v w. w < v) (None, NegInf)
       (map (\<lambda>m. (m, snd (minimax sc (successor b m sc) d False))) (get_legal_moves b sc))"
  by (subst minimax.simps) (simp add: Let_def)

lemma minimax_min:
  "get_legal_moves b (- sc) \<noteq> [] \<Longrightarrow>
   minimax sc b (Suc d) False =
     first_best (\<lambda>v w. v < w) (None, PosInf)
       (map (\<lambda>m. (m, snd (minimax sc (successor b m (- sc)) d True))) (get_legal_moves b (- sc)))"
  by (subst minimax.simps) (simp add: Let_def)

lemma w_max_loop_fail_soft:
  assumes wf: "wf_board b"
    and rec: "\<And>m a t. m \<in> set (get_legal_moves b c) \<Longrightarrow> a < bt \<Longrightarrow>
               \<exists>ev t'. rec (successor b m c) a bt t = Inr (ev, t') \<and> fail_soft a bt (tv m) ev"
  shows "set ms \<subseteq> set (get_legal_moves b c) \<Longrightarrow> alpha = max a0 val \<Longrightarrow> alpha < bt \<Longrightarrow>
         (val \<le> a0 \<longrightarrow> tp \<le> val) \<Longrightarrow> (a0 < val \<longrightarrow> val = tp) \<Longrightarrow>
         \<exists>v t'. w_max_loop rec b c ms val alpha bt t = Inr (v, t') \<and>
                fail_soft a0 bt (foldl max tp (map tv ms)) v"
proof (induction ms arbitrary: val alpha tp t)
  case Nil
  then show ?case by (auto simp: fail_soft_def)
next
  case (Cons m ms)
  from Cons.prems(1) have m: "m \<in> set (get_legal_moves b c)"
    and ms: "set ms \<subseteq> set (get_legal_moves b c)"
    by simp_all
  note am = apply_move_legal [OF wf m, of c]
  from rec [OF m Cons.prems(3), of t] obtain ev t1 where
    r: "rec (successor b m c) alpha bt t = Inr (ev, t1)" and fs: "fail_soft alpha bt (tv m) ev"
    by blast
  note step = w_max_loop_step [where rec = rec and ms = ms and v = val, OF conjunct1 [OF am] r]
  show ?case
  proof (cases "bt \<le> max alpha ev")
    case True
    have "tv m \<le> max tp (tv m)" by simp
    also have "\<dots> \<le> foldl max (max tp (tv m)) (map tv ms)" by (rule foldl_max_ge)
    finally have "tv m \<le> foldl max tp (map tv (m # ms))" by simp
    from max_step_cut [OF fs Cons.prems(2,3) True this] True show ?thesis
      by (simp add: step)
  next
    case False
    then have lt: "max alpha ev < bt" using not_le by blast
    have a': "max alpha ev = max a0 (max val ev)"
      by (simp add: Cons.prems(2) max.assoc)
    note inv = max_step_inv [OF fs Cons.prems(2) lt Cons.prems(4,5)]
    from Cons.IH [OF ms a' lt conjunct1 [OF inv] conjunct2 [OF inv], of t1] False
    show ?thesis by (simp add: step)
  qed
qed

lemma w_min_loop_fail_soft:
  assumes wf: "wf_board b"
    and rec: "\<And>m bt t. m \<in> set (get_legal_moves b c) \<Longrightarrow> a < bt \<Longrightarrow>
               \<exists>ev t'. rec (successor b m c) a bt t = Inr (ev, t') \<and> fail_soft a bt (tv m) ev"
  shows "set ms \<subseteq> set (get_legal_moves b c) \<Longrightarrow> beta = min b0 val \<Longrightarrow> a < beta \<Longrightarrow>
         (b0 \<le> val \<longrightarrow> val \<le> tp) \<Longrightarrow> (val < b0 \<longrightarrow> val = tp) \<Longrightarrow>
         \<exists>v t'. w_min_loop rec b c ms val a beta t = Inr (v, t') \<and>
                fail_soft a b0 (foldl min tp (map tv ms)) v"
proof (induction ms arbitrary: val beta tp t)
  case Nil
  then show ?case by (auto simp: fail_soft_def)
next
  case (Cons m ms)
  from Cons.prems(1) have m: "m \<in> set (get_legal_moves b c)"
    and ms: "set ms \<subseteq> set (get_legal_moves b c)"
    by simp_all
  note am = apply_move_legal [OF wf m, of c]
  from rec [OF m Cons.prems(3), of t] obtain ev t1 where
    r: "rec (successor b m c) a beta t = Inr (ev, t1)" and fs: "fail_soft a beta (tv m) ev"
    by blast
  note step = w_min_loop_step [where rec = rec and ms = ms and v = val, OF conjunct1 [OF am] r]
  show ?case
  proof (cases "min beta ev \<le> a")
    case True
    have "foldl min (min tp (tv m)) (map tv ms) \<le> min tp (tv m)" by (rule foldl_min_le)
    also have "\<dots> \<le> tv m" by simp
    finally have "foldl min tp (map tv (m # ms)) \<le> tv m" by simp
    from min_step_cut [OF fs Cons.prems(2,3) True this] True show ?thesis
      by (simp add: step)
  next
    case False
    then have lt: "a < min beta ev" using not_le by blast
    have b': "min beta ev = min b0 (min val ev)"
      by (simp add: Cons.prems(2) min.assoc)
    note inv = min_step_inv [OF fs Cons.prems(2) lt Cons.prems(4,5)]
    from Cons.IH [OF ms b' lt conjunct1 [OF inv] conjunct2 [OF inv], of t1] False
    show ?thesis by (simp add: step)
  qed
qed


lemma alphabeta_fail_soft:
  assumes nt: "\<forall>n. \<not> wclk n"
  shows "wf_board b \<Longrightarrow> a < bt \<Longrightarrow>
         \<exists>v t'. alphabeta wclk sc b d a bt mx t = Inr (v, t') \<and>
                fail_soft a bt (snd (minimax sc b d mx)) v"
proof (induction d arbitrary: b a bt mx t)
  case 0
  then show ?case
    by (subst alphabeta.simps) (simp add: minimax_leaf evaluate_board_eq fail_soft_refl)
next
  case (Suc d)
  let ?c = "if mx then sc else - sc"
  let ?lm = "get_legal_moves b ?c"
  show ?case
  proof (cases "?lm = []")
    case True
    then show ?thesis
      by (subst alphabeta.simps) (simp add: minimax_leaf evaluate_board_eq fail_soft_refl Let_def)
  next
    case False
    show ?thesis
    proof (cases mx)
      case True
      let ?tv = "\<lambda>m. snd (minimax sc (successor b m sc) d False)"
      let ?rec = "\<lambda>cb a bt t'. alphabeta wclk sc cb d a bt False t'"
      have rec: "\<exists>ev t'. ?rec (successor b m sc) a' bt t = Inr (ev, t') \<and> fail_soft a' bt (?tv m) ev"
        if "m \<in> set (get_legal_moves b sc)" "a' < bt" for m a' t
        using Suc.IH [of "successor b m sc" a' bt False t] apply_move_legal [OF Suc.prems(1) that(1)] that(2)
        by simp
      have "\<exists>v t'. w_max_loop ?rec b sc (get_legal_moves b sc) NegInf a bt (Suc t) = Inr (v, t') \<and>
              fail_soft a bt (foldl max NegInf (map ?tv (get_legal_moves b sc))) v"
        by (rule w_max_loop_fail_soft [where rec = ?rec and tv = ?tv, OF Suc.prems(1) rec])
           (use Suc.prems(2) in \<open>simp_all add: max_def\<close>)
      moreover have "snd (minimax sc b (Suc d) True) = foldl max NegInf (map ?tv (get_legal_moves b sc))"
        using False True by (simp add: minimax_max first_best_max_value comp_def)
      moreover have "alphabeta wclk sc b (Suc d) a bt True t =
          w_max_loop ?rec b sc (get_legal_moves b sc) NegInf a bt (Suc t)"
        using False True nt by (subst alphabeta.simps) (simp add: Let_def)
      ultimately show ?thesis using True by simp
    next
      case mn: False
      let ?tv = "\<lambda>m. snd (minimax sc (successor b m (- sc)) d True)"
      let ?rec = "\<lambda>cb a bt t'. alphabeta wclk sc cb d a bt True t'"
      have rec: "\<exists>ev t'. ?rec (successor b m (- sc)) a bt' t = Inr (ev, t') \<and> fail_soft a bt' (?tv m) ev"
        if "m \<in> set (get_legal_moves b (- sc))" "a < bt'" for m bt' t
        using Suc.IH [of "successor b m (- sc)" a bt' True t] apply_move_legal [OF Suc.prems(1) that(1)] that(2)
        by simp
      have "\<exists>v t'. w_min_loop ?rec b (- sc) (get_legal_moves b (- sc)) PosInf a bt (Suc t) = Inr (v, t') \<and>
              fail_soft a bt (foldl min PosInf (map ?tv (get_legal_moves b (- sc)))) v"
        by (rule w_min_loop_fail_soft [where rec = ?rec and tv = ?tv, OF Suc.prems(1) rec])
           (use Suc.prems(2) in \<open>simp_all add: min_def\<close>)
      moreover have "snd (minimax sc b (Suc d) False) = foldl min PosInf (map ?tv (get_legal_moves b (- sc)))"
        using False mn by (simp add: minimax_min first_best_min_value comp_def)
      moreover have "alphabeta wclk sc b (Suc d) a bt False t =
          w_min_loop ?rec b (- sc) (get_legal_moves b (- sc)) PosInf a bt (Suc t)"
        using False mn nt by (subst alphabeta.simps) (simp add: Let_def)
      ultimately show ?thesis using mn by simp
    qed
  qed
qed


lemma max_loop_fail_soft:
  assumes wf: "wf_board b" and nt: "\<forall>n. \<not> clk n"
    and rec: "\<And>m a s. m \<in> set (get_legal_moves b c) \<Longrightarrow> a < bt \<Longrightarrow>
               \<exists>mv ev s'. rec (successor b m c) a bt s = Inr ((mv, ev), s') \<and>
                          fail_soft a bt (tv m) ev"
  shows "set ms \<subseteq> set (get_legal_moves b c) \<Longrightarrow> alpha = max a0 mx \<Longrightarrow> alpha < bt \<Longrightarrow>
         (bm = None \<longrightarrow> mx = NegInf) \<Longrightarrow>
         (mx \<le> a0 \<longrightarrow> tp \<le> mx) \<Longrightarrow> (a0 < mx \<longrightarrow> mx = tp) \<Longrightarrow>
         \<exists>r v s'. max_loop clk rec b c ms bm mx alpha bt s = Inr ((r, v), s') \<and>
                  fail_soft a0 bt (foldl max tp (map tv ms)) v"
proof (induction ms arbitrary: bm mx alpha tp s)
  case Nil
  then show ?case by (auto simp: fail_soft_def)
next
  case (Cons m ms)
  let ?s1 = "s\<lparr>ticks := Suc (ticks s)\<rparr>"
  from Cons.prems(1) have m: "m \<in> set (get_legal_moves b c)"
    and ms: "set ms \<subseteq> set (get_legal_moves b c)"
    by simp_all
  note am = apply_move_legal [OF wf m, of c]
  from rec [OF m Cons.prems(3), of ?s1] obtain mv ev s2 where
    r: "rec (successor b m c) alpha bt ?s1 = Inr ((mv, ev), s2)"
    and fs: "fail_soft alpha bt (tv m) ev"
    by blast
  from nt have ntk: "\<not> clk (ticks s)" by simp
  have upd: "(if mx < ev \<or> bm = None then ev else mx) = max mx ev"
    using Cons.prems(4) by (auto simp: max_def)
  note step = max_loop_step [where rec = rec and clk = clk and s = s and ms = ms and bm = bm and mx = mx,
      OF ntk conjunct1 [OF am] r, unfolded upd]
  show ?case
  proof (cases "bt \<le> max alpha ev")
    case True
    have "tv m \<le> max tp (tv m)" by simp
    also have "\<dots> \<le> foldl max (max tp (tv m)) (map tv ms)" by (rule foldl_max_ge)
    finally have "tv m \<le> foldl max tp (map tv (m # ms))" by simp
    from max_step_cut [OF fs Cons.prems(2,3) True this] True show ?thesis
      by (simp add: step)
  next
    case False
    then have lt: "max alpha ev < bt" using not_le by blast
    have a': "max alpha ev = max a0 (max mx ev)"
      by (simp add: Cons.prems(2) max.assoc)
    note inv = max_step_inv [OF fs Cons.prems(2) lt Cons.prems(5,6)]
    have bm': "(if mx < ev \<or> bm = None then Some m else bm) = None \<longrightarrow> max mx ev = NegInf"
      by auto
    from Cons.IH [OF ms a' lt bm' conjunct1 [OF inv] conjunct2 [OF inv], of s2] False
    show ?thesis by (simp add: step)
  qed
qed

lemma min_loop_fail_soft:
  assumes wf: "wf_board b" and nt: "\<forall>n. \<not> clk n"
    and rec: "\<And>m bt s. m \<in> set (get_legal_moves b c) \<Longrightarrow> a < bt \<Longrightarrow>
               \<exists>mv ev s'. rec (successor b m c) a bt s = Inr ((mv, ev), s') \<and>
                          fail_soft a bt (tv m) ev"
  shows "set ms \<subseteq> set (get_legal_moves b c) \<Longrightarrow> beta = min b0 mn \<Longrightarrow> a < beta \<Longrightarrow>
         (bm = None \<longrightarrow> mn = PosInf) \<Longrightarrow>
         (b0 \<le> mn \<longrightarrow> mn \<le> tp) \<Longrightarrow> (mn < b0 \<longrightarrow> mn = tp) \<Longrightarrow>
         \<exists>r v s'. min_loop clk rec b c ms bm mn a beta s = Inr ((r, v), s') \<and>
                  fail_soft a b0 (foldl min tp (map tv ms)) v"
proof (induction ms arbitrary: bm mn beta tp s)
  case Nil
  then show ?case by (auto simp: fail_soft_def)
next
  case (Cons m ms)
  let ?s1 = "s\<lparr>ticks := Suc (ticks s)\<rparr>"
  from Cons.prems(1) have m: "m \<in> set (get_legal_moves b c)"
    and ms: "set ms \<subseteq> set (get_legal_moves b c)"
    by simp_all
  note am = apply_move_legal [OF wf m, of c]
  from rec [OF m Cons.prems(3), of ?s1] obtain mv ev s2 where
    r: "rec (successor b m c) a beta ?s1 = Inr ((mv, ev), s2)"
    and fs: "fail_soft a beta (tv m) ev"
    by blast
  from nt have ntk: "\<not> clk (ticks s)" by simp
  have upd: "(if ev < mn \<or> bm = None then ev else mn) = min mn ev"
    using Cons.prems(4) by (auto simp: min_def)
  note step = min_loop_step [where rec = rec and clk = clk and s = s and ms = ms and bm = bm and mn = mn,
      OF ntk conjunct1 [OF am] r, unfolded upd]
  show ?case
  proof (cases "min beta ev \<le> a")
    case True
    have "foldl min (min tp (tv m)) (map tv ms) \<le> min tp (tv m)" by (rule foldl_min_le)
    also have "\<dots> \<le> tv m" by simp
    finally have "foldl min tp (map tv (m # ms)) \<le> tv m" by simp
    from min_step_cut [OF fs Cons.prems(2,3) True this] True show ?thesis
      by (simp add: step)
  next
    case False
    then have lt: "a < min beta ev" using not_le by blast
    have b': "min beta ev = min b0 (min mn ev)"
      by (simp add: Cons.prems(2) min.assoc)
    note inv = min_step_inv [OF fs Cons.prems(2) lt Cons.prems(5,6)]
    have bm': "(if ev < mn \<or> bm = None then Some m else bm) = None \<longrightarrow> min mn ev = PosInf"
      by auto
    from Cons.IH [OF ms b' lt bm' conjunct1 [OF inv] conjunct2 [OF inv], of s2] False
    show ?thesis by (simp add: step)
  qed
qed

lemma alphabeta_search_fail_soft:
  assumes nt: "\<forall>n. \<not> clk n"
  shows "wf_board b \<Longrightarrow> a < bt \<Longrightarrow>
         \<exists>mv v s'. alphabeta_search clk sc b d a bt mx s = Inr ((mv, v), s') \<and>
                   fail_soft a bt (snd (minimax sc b d mx)) v"
proof (induction d arbitrary: b a bt mx s)
  case 0
  then show ?case
    by (subst alphabeta_search.simps) (simp add: minimax_leaf fail_soft_refl)
next
  case (Suc d)
  let ?c = "if mx then sc else - sc"
  let ?lm = "get_legal_moves b ?c"
  let ?s1 = "s\<lparr>nodes_evaluated := nodes_evaluated s + 1, ticks := Suc (ticks s)\<rparr>"
  show ?case
  proof (cases "?lm = []")
    case True
    then show ?thesis
      by (subst alphabeta_search.simps) (simp add: minimax_leaf fail_soft_refl Let_def)
  next
    case False
    show ?thesis
    proof (cases mx)
      case True
      let ?tv = "\<lambda>m. snd (minimax sc (successor b m sc) d False)"
      let ?rec = "\<lambda>nb a bt s'. alphabeta_search clk sc nb d a bt False s'"
      have rec: "\<exists>mv ev s'. ?rec (successor b m sc) a' bt s = Inr ((mv, ev), s') \<and>
                   fail_soft a' bt (?tv m) ev"
        if "m \<in> set (get_legal_moves b sc)" "a' < bt" for m a' s
        using Suc.IH [of "successor b m sc" a' bt False s]
          apply_move_legal [OF Suc.prems(1) that(1)] that(2)
        by simp
      have "\<exists>r v s'. max_loop clk ?rec b sc (get_legal_moves b sc) None NegInf a bt ?s1 =
                Inr ((r, v), s') \<and>
              fail_soft a bt (foldl max NegInf (map ?tv (get_legal_moves b sc))) v"
        by (rule max_loop_fail_soft [where rec = ?rec and tv = ?tv, OF Suc.prems(1) nt rec])
           (use Suc.prems(2) in \<open>simp_all add: max_def\<close>)
      moreover have "snd (minimax sc b (Suc d) True) =
          foldl max NegInf (map ?tv (get_legal_moves b sc))"
        using False True by (simp add: minimax_max first_best_max_value comp_def)
      moreover have "alphabeta_search clk sc b (Suc d) a bt True s =
          max_loop clk ?rec b sc (get_legal_moves b sc) None NegInf a bt ?s1"
        using False True nt
        by (subst alphabeta_search.simps) (simp add: Let_def time_exceeded_def)
      ultimately show ?thesis using True by simp
    next
      case mn: False
      let ?tv = "\<lambda>m. snd (minimax sc (successor b m (- sc)) d True)"
      let ?rec = "\<lambda>nb a bt s'. alphabeta_search clk sc nb d a bt True s'"
      have rec: "\<exists>mv ev s'. ?rec (successor b m (- sc)) a bt' s = Inr ((mv, ev), s') \<and>
                   fail_soft a bt' (?tv m) ev"
        if "m \<in> set (get_legal_moves b (- sc))" "a < bt'" for m bt' s
        using Suc.IH [of "successor b m (- sc)" a bt' True s]
          apply_move_legal [OF Suc.prems(1) that(1)] that(2)
        by simp
      have "\<exists>r v s'. min_loop clk ?rec b (- sc) (get_legal_moves b (- sc)) None PosInf a bt ?s1 =
                Inr ((r, v), s') \<and>
              fail_soft a bt (foldl min PosInf (map ?tv (get_legal_moves b (- sc)))) v"
        by (rule min_loop_fail_soft [where rec = ?rec and tv = ?tv, OF Suc.prems(1) nt rec])
           (use Suc.prems(2) in \<open>simp_all add: min_def\<close>)
      moreover have "snd (minimax sc b (Suc d) False) =
          foldl min PosInf (map ?tv (get_legal_moves b (- sc)))"
        using False mn by (simp add: minimax_min first_best_min_value comp_def)
      moreover have "alphabeta_search clk sc b (Suc d) a bt False s =
          min_loop clk ?rec b (- sc) (get_legal_moves b (- sc)) None PosInf a bt ?s1"
        using False mn nt
        by (subst alphabeta_search.simps) (simp add: Let_def time_exceeded_def)
      ultimately show ?thesis using mn by simp
    qed
  qed
qed


text \<open>With the full window the search returns the move and the score of minimax.\<close>

lemma foldl_max_pick: "\<exists>m' \<in> set (m # ms). foldl max (f m) (map f ms) = (f m' :: score)"
proof (induction ms arbitrary: m)
  case Nil
  show ?case by simp
next
  case (Cons x xs)
  have "max (f m) (f x) = f m \<or> max (f m) (f x) = f x" by (simp add: max_def)
  then show ?case
  proof
    assume "max (f m) (f x) = f m"
    with Cons.IH [of m] show ?thesis by auto
  next
    assume "max (f m) (f x) = f x"
    with Cons.IH [of x] show ?thesis by auto
  qed
qed

lemma foldl_min_pick: "\<exists>m' \<in> set (m # ms). foldl min (f m) (map f ms) = (f m' :: score)"
proof (induction ms arbitrary: m)
  case Nil
  show ?case by simp
next
  case (Cons x xs)
  have "min (f m) (f x) = f m \<or> min (f m) (f x) = f x" by (simp add: min_def)
  then show ?case
  proof
    assume "min (f m) (f x) = f m"
    with Cons.IH [of m] show ?thesis by auto
  next
    assume "min (f m) (f x) = f x"
    with Cons.IH [of x] show ?thesis by auto
  qed
qed

lemma minimax_finite: "\<exists>k. snd (minimax sc b d mx) = Fin k"
proof (induction d arbitrary: b mx)
  case 0
  show ?case by (simp add: minimax_leaf)
next
  case (Suc d)
  let ?c = "if mx then sc else - sc"
  show ?case
  proof (cases "get_legal_moves b ?c = []")
    case True
    then show ?thesis by (simp add: minimax_leaf)
  next
    case False
    then obtain m ms where lm: "get_legal_moves b ?c = m # ms"
      by (cases "get_legal_moves b ?c") auto
    show ?thesis
    proof (cases mx)
      case True
      let ?tv = "\<lambda>m. snd (minimax sc (successor b m sc) d False)"
      have "snd (minimax sc b (Suc d) True) = foldl max (?tv m) (map ?tv ms)"
        using lm True by (simp add: minimax_max first_best_max_value comp_def)
      moreover obtain m' where "foldl max (?tv m) (map ?tv ms) = ?tv m'"
        using foldl_max_pick [of m ms ?tv] by blast
      ultimately have "snd (minimax sc b (Suc d) True) = ?tv m'"
        by simp
      with Suc.IH [of "successor b m' sc" False] True show ?thesis by simp
    next
      case mn: False
      let ?tv = "\<lambda>m. snd (minimax sc (successor b m (- sc)) d True)"
      have "snd (minimax sc b (Suc d) False) = foldl min (?tv m) (map ?tv ms)"
        using lm mn by (simp add: minimax_min first_best_min_value comp_def)
      moreover obtain m' where "foldl min (?tv m) (map ?tv ms) = ?tv m'"
        using foldl_min_pick [of m ms ?tv] by blast
      ultimately have "snd (minimax sc b (Suc d) False) = ?tv m'"
        by simp
      with Suc.IH [of "successor b m' (- sc)" True] mn show ?thesis by simp
    qed
  qed
qed

lemma max_exact_step:
  assumes "fail_soft mx PosInf t ev" "bm = None \<longrightarrow> mx = NegInf" "t \<noteq> PosInf"
  shows "ev \<noteq> PosInf \<and> ((mx < ev \<or> bm = None) \<longleftrightarrow> (mx < t \<or> bm = None)) \<and>
         (mx < ev \<or> bm = None \<longrightarrow> ev = t) \<and>
         max mx ev = (if mx < ev \<or> bm = None then ev else mx)"
  using assms unfolding fail_soft_def max_def
  by (cases "ev = PosInf") (auto split: if_splits)

lemma min_exact_step:
  assumes "fail_soft NegInf mn t ev" "bm = None \<longrightarrow> mn = PosInf" "t \<noteq> NegInf"
  shows "ev \<noteq> NegInf \<and> ((ev < mn \<or> bm = None) \<longleftrightarrow> (t < mn \<or> bm = None)) \<and>
         (ev < mn \<or> bm = None \<longrightarrow> ev = t) \<and>
         min mn ev = (if ev < mn \<or> bm = None then ev else mn)"
  using assms unfolding fail_soft_def min_def
  by (cases "ev = NegInf") (auto split: if_splits)


lemma max_loop_exact:
  assumes wf: "wf_board b" and nt: "\<forall>n. \<not> clk n"
    and rec: "\<And>m a s. m \<in> set (get_legal_moves b c) \<Longrightarrow> a < PosInf \<Longrightarrow>
               \<exists>mv ev s'. rec (successor b m c) a PosInf s = Inr ((mv, ev), s') \<and>
                          fail_soft a PosInf (tv m) ev"
    and fin: "\<And>m. tv m \<noteq> PosInf"
  shows "set ms \<subseteq> set (get_legal_moves b c) \<Longrightarrow> (bm = None \<longrightarrow> mx = NegInf) \<Longrightarrow>
         mx \<noteq> PosInf \<Longrightarrow>
         \<exists>s'. max_loop clk rec b c ms bm mx mx PosInf s =
                Inr (first_best (\<lambda>v w. w < v) (bm, mx) (map (\<lambda>m. (m, tv m)) ms), s')"
proof (induction ms arbitrary: bm mx s)
  case Nil
  show ?case by simp
next
  case (Cons m ms)
  let ?s1 = "s\<lparr>ticks := Suc (ticks s)\<rparr>"
  from Cons.prems(1) have m: "m \<in> set (get_legal_moves b c)"
    and ms: "set ms \<subseteq> set (get_legal_moves b c)"
    by simp_all
  note am = apply_move_legal [OF wf m, of c]
  from Cons.prems(3) have lt: "mx < PosInf" by simp
  from rec [OF m lt, of ?s1] obtain mv ev s2 where
    r: "rec (successor b m c) mx PosInf ?s1 = Inr ((mv, ev), s2)"
    and fs: "fail_soft mx PosInf (tv m) ev"
    by blast
  from nt have ntk: "\<not> clk (ticks s)" by simp
  from max_exact_step [OF fs Cons.prems(2) fin]
  have e1: "ev \<noteq> PosInf"
    and e2: "(mx < ev \<or> bm = None) \<longleftrightarrow> (mx < tv m \<or> bm = None)"
    and e3: "mx < ev \<or> bm = None \<longrightarrow> ev = tv m"
    and e4: "max mx ev = (if mx < ev \<or> bm = None then ev else mx)"
    by blast+
  note step0 = max_loop_step [where rec = rec and clk = clk and s = s and ms = ms and bm = bm
      and mx = mx, OF ntk conjunct1 [OF am] r]
  show ?case
  proof (cases "mx < ev \<or> bm = None")
    case True
    with e2 e3 have t: "mx < tv m \<or> bm = None" "ev = tv m" by blast+
    from True e4 have mxev: "max mx ev = ev" by auto
    have step: "max_loop clk rec b c (m # ms) bm mx mx PosInf s =
                max_loop clk rec b c ms (Some m) ev ev PosInf s2"
      unfolding step0 mxev using True e1 by auto
    have fb: "first_best (\<lambda>v w. w < v) (bm, mx) (map (\<lambda>m. (m, tv m)) (m # ms)) =
              first_best (\<lambda>v w. w < v) (Some m, ev) (map (\<lambda>m. (m, tv m)) ms)"
      using t by auto
    from Cons.IH [OF ms, of "Some m" ev s2] e1 show ?thesis
      unfolding step fb by simp
  next
    case False
    with e2 have t: "\<not> (mx < tv m \<or> bm = None)" by blast
    from False e4 have mxev: "max mx ev = mx" by auto
    have step: "max_loop clk rec b c (m # ms) bm mx mx PosInf s =
                max_loop clk rec b c ms bm mx mx PosInf s2"
      unfolding step0 mxev using False Cons.prems(3) by auto
    have fb: "first_best (\<lambda>v w. w < v) (bm, mx) (map (\<lambda>m. (m, tv m)) (m # ms)) =
              first_best (\<lambda>v w. w < v) (bm, mx) (map (\<lambda>m. (m, tv m)) ms)"
      using t by auto
    from Cons.IH [OF ms Cons.prems(2,3), of s2] show ?thesis
      unfolding step fb by simp
  qed
qed

lemma min_loop_exact:
  assumes wf: "wf_board b" and nt: "\<forall>n. \<not> clk n"
    and rec: "\<And>m bt s. m \<in> set (get_legal_moves b c) \<Longrightarrow> NegInf < bt \<Longrightarrow>
               \<exists>mv ev s'. rec (successor b m c) NegInf bt s = Inr ((mv, ev), s') \<and>
                          fail_soft NegInf bt (tv m) ev"
    and fin: "\<And>m. tv m \<noteq> NegInf"
  shows "set ms \<subseteq> set (get_legal_moves b c) \<Longrightarrow> (bm = None \<longrightarrow> mn = PosInf) \<Longrightarrow>
         mn \<noteq> NegInf \<Longrightarrow>
         \<exists>s'. min_loop clk rec b c ms bm mn NegInf mn s =
                Inr (first_best (\<lambda>v w. v < w) (bm, mn) (map (\<lambda>m. (m, tv m)) ms), s')"
proof (induction ms arbitrary: bm mn s)
  case Nil
  show ?case by simp
next
  case (Cons m ms)
  let ?s1 = "s\<lparr>ticks := Suc (ticks s)\<rparr>"
  from Cons.prems(1) have m: "m \<in> set (get_legal_moves b c)"
    and ms: "set ms \<subseteq> set (get_legal_moves b c)"
    by simp_all
  note am = apply_move_legal [OF wf m, of c]
  from Cons.prems(3) have lt: "NegInf < mn" by simp
  from rec [OF m lt, of ?s1] obtain mv ev s2 where
    r: "rec (successor b m c) NegInf mn ?s1 = Inr ((mv, ev), s2)"
    and fs: "fail_soft NegInf mn (tv m) ev"
    by blast
  from nt have ntk: "\<not> clk (ticks s)" by simp
  from min_exact_step [OF fs Cons.prems(2) fin]
  have e1: "ev \<noteq> NegInf"
    and e2: "(ev < mn \<or> bm = None) \<longleftrightarrow> (tv m < mn \<or> bm = None)"
    and e3: "ev < mn \<or> bm = None \<longrightarrow> ev = tv m"
    and e4: "min mn ev = (if ev < mn \<or> bm = None then ev else mn)"
    by blast+
  note step0 = min_loop_step [where rec = rec and clk = clk and s = s and ms = ms and bm = bm
      and mn = mn, OF ntk conjunct1 [OF am] r]
  show ?case
  proof (cases "ev < mn \<or> bm = None")
    case True
    with e2 e3 have t: "tv m < mn \<or> bm = None" "ev = tv m" by blast+
    from True e4 have mnev: "min mn ev = ev" by auto
    have step: "min_loop clk rec b c (m # ms) bm mn NegInf mn s =
                min_loop clk rec b c ms (Some m) ev NegInf ev s2"
      unfolding step0 mnev using True e1 by auto
    have fb: "first_best (\<lambda>v w. v < w) (bm, mn) (map (\<lambda>m. (m, tv m)) (m # ms)) =
              first_best (\<lambda>v w. v < w) (Some m, ev) (map (\<lambda>m. (m, tv m)) ms)"
      using t by auto
    from Cons.IH [OF ms, of "Some m" ev s2] e1 show ?thesis
      unfolding step fb by simp
  next
    case False
    with e2 have t: "\<not> (tv m < mn \<or> bm = None)" by blast
    from False e4 have mnev: "min mn ev = mn" by auto
    have step: "min_loop clk rec b c (m # ms) bm mn NegInf mn s =
                min_loop clk rec b c ms bm mn NegInf mn s2"
      unfolding step0 mnev using False Cons.prems(3) by auto
    have fb: "first_best (\<lambda>v w. v < w) (bm, mn) (map (\<lambda>m. (m, tv m)) (m # ms)) =
              first_best (\<lambda>v w. v < w) (bm, mn) (map (\<lambda>m. (m, tv m)) ms)"
      using t by auto
    from Cons.IH [OF ms Cons.prems(2,3), of s2] show ?thesis
      unfolding step fb by simp
  qed
qed


lemma minimax_not_inf [simp]:
  "snd (minimax sc b d mx) \<noteq> PosInf" "snd (minimax sc b d mx) \<noteq> NegInf"
  using minimax_finite [of sc b d mx] by auto

lemma root_loop_exact:
  assumes wf: "wf_board b" and nt: "\<forall>n. \<not> clk n"
  shows "set ms \<subseteq> set (get_legal_moves b sc) \<Longrightarrow> (bm = None \<longrightarrow> bs = NegInf) \<Longrightarrow>
         bs \<noteq> PosInf \<Longrightarrow>
         \<exists>s'. root_loop clk sc b d ms bm bs bs s =
                Inr (first_best (\<lambda>v w. w < v) (bm, bs)
                       (map (\<lambda>m. (m, snd (minimax sc (successor b m sc) (d - 1) False))) ms), s')"
proof (induction ms arbitrary: bm bs s)
  case Nil
  show ?case by simp
next
  case (Cons m ms)
  let ?tv = "\<lambda>m. snd (minimax sc (successor b m sc) (d - 1) False)"
  let ?s1 = "s\<lparr>ticks := Suc (ticks s)\<rparr>"
  from Cons.prems(1) have m: "m \<in> set (get_legal_moves b sc)"
    and ms: "set ms \<subseteq> set (get_legal_moves b sc)"
    by simp_all
  note am = apply_move_legal [OF wf m, of sc]
  from Cons.prems(3) have lt: "bs < PosInf" by simp
  from alphabeta_search_fail_soft [OF nt conjunct2 [OF am] lt, of sc "d - 1" False ?s1]
  obtain mv ev s2 where
    r: "alphabeta_search clk sc (successor b m sc) (d - 1) bs PosInf False ?s1 = Inr ((mv, ev), s2)"
    and fs: "fail_soft bs PosInf (?tv m) ev"
    by blast
  from nt have ntk: "\<not> clk (ticks s)" by simp
  from max_exact_step [OF fs Cons.prems(2) minimax_not_inf(1)]
  have e1: "ev \<noteq> PosInf"
    and e2: "(bs < ev \<or> bm = None) \<longleftrightarrow> (bs < ?tv m \<or> bm = None)"
    and e3: "bs < ev \<or> bm = None \<longrightarrow> ev = ?tv m"
    and e4: "max bs ev = (if bs < ev \<or> bm = None then ev else bs)"
    by blast+
  note step0 = root_loop_step [where clk = clk and s = s and ms = ms and bm = bm and bs = bs,
      OF ntk conjunct1 [OF am] r]
  show ?case
  proof (cases "bs < ev \<or> bm = None")
    case True
    with e2 e3 have t: "bs < ?tv m \<or> bm = None" "ev = ?tv m" by blast+
    from True e4 have mxev: "max bs ev = ev" by auto
    have step: "root_loop clk sc b d (m # ms) bm bs bs s =
                root_loop clk sc b d ms (Some m) ev ev s2"
      unfolding step0 mxev using True by auto
    have fb: "first_best (\<lambda>v w. w < v) (bm, bs) (map (\<lambda>m. (m, ?tv m)) (m # ms)) =
              first_best (\<lambda>v w. w < v) (Some m, ev) (map (\<lambda>m. (m, ?tv m)) ms)"
      using t by auto
    from Cons.IH [OF ms, of "Some m" ev s2] e1 show ?thesis
      unfolding step fb by simp
  next
    case False
    with e2 have t: "\<not> (bs < ?tv m \<or> bm = None)" by blast
    from False e4 have mxev: "max bs ev = bs" by auto
    have step: "root_loop clk sc b d (m # ms) bm bs bs s =
                root_loop clk sc b d ms bm bs bs s2"
      unfolding step0 mxev using False by auto
    have fb: "first_best (\<lambda>v w. w < v) (bm, bs) (map (\<lambda>m. (m, ?tv m)) (m # ms)) =
              first_best (\<lambda>v w. w < v) (bm, bs) (map (\<lambda>m. (m, ?tv m)) ms)"
      using t by auto
    from Cons.IH [OF ms Cons.prems(2,3), of s2] show ?thesis
      unfolding step fb by simp
  qed
qed

lemma root_search_sequential_exact:
  assumes "wf_board b" "\<forall>n. \<not> clk n" "set ms \<subseteq> set (get_legal_moves b sc)"
  shows "\<exists>s'. root_search_sequential clk sc b ms d s =
                Inr (first_best (\<lambda>v w. w < v) (None, NegInf)
                       (map (\<lambda>m. (m, snd (minimax sc (successor b m sc) (d - 1) False))) ms), s')"
  unfolding root_search_sequential_def
  by (rule root_loop_exact [OF assms(1,2,3)]) simp_all

text \<open>The parallel root search with unlimited time.\<close>

lemma first_best_max_by_score:
  "first_best (\<lambda>v w. w < v) (Some (fst x), snd x) xs =
     (Some (fst (max_by_score x xs)), snd (max_by_score x xs))"
proof (induction xs arbitrary: x)
  case Nil
  show ?case by simp
next
  case (Cons y ys)
  obtain m v where y: "y = (m, v)" by (cases y)
  show ?case
    using Cons.IH [of y] Cons.IH [of x] by (simp add: y)
qed

lemma first_best_Some: "fst best \<noteq> None \<Longrightarrow> fst (first_best better best xs) \<noteq> None"
  by (induction xs arbitrary: best) auto

lemma first_best_nonempty: "xs \<noteq> [] \<Longrightarrow> fst (first_best better (None, x) xs) \<noteq> None"
proof -
  assume "xs \<noteq> []"
  then obtain m v ys where "xs = (m, v) # ys" by (cases xs) auto
  then show ?thesis
    using first_best_Some [of "(Some m, v)" better ys] by simp
qed

lemma pool_map_map_Inr: "pool_map (map Inr xs) = Inr xs"
  by (induction xs) simp_all

lemma parallel_worker_exact:
  assumes "wf_board b" "m \<in> set (get_legal_moves b c)" "\<forall>n. \<not> wclk n"
  shows "parallel_worker wclk b m d sc =
           Inr (m, snd (minimax sc (successor b m sc) (d - 1) False))"
proof -
  note am = apply_move_legal [OF assms(1,2), of sc]
  have "NegInf < PosInf" by simp
  from alphabeta_fail_soft [OF assms(3) conjunct2 [OF am] this, of sc "d - 1" False 0]
  obtain v t' where
    r: "alphabeta wclk sc (successor b m sc) (d - 1) NegInf PosInf False 0 = Inr (v, t')"
    and fs: "fail_soft NegInf PosInf (snd (minimax sc (successor b m sc) (d - 1) False)) v"
    by blast
  from fail_soft_full [OF fs] am r show ?thesis
    by (simp add: parallel_worker_def)
qed

lemma map_zip_snd:
  "length xs = length ys \<Longrightarrow> map (\<lambda>(i, m). f m) (zip xs ys) = map f ys"
  by (induction xs ys rule: list_induct2) simp_all

lemma parallel_tasks_exact:
  assumes wf: "wf_board b" and ms: "set ms \<subseteq> set (get_legal_moves b c)"
    and nt: "\<forall>i n. \<not> worker_clock env i n"
  shows "pool_map (map (\<lambda>(i, m). parallel_worker (worker_clock env i) b m d sc)
                    (zip [0 ..< length ms] ms)) =
         Inr (map (\<lambda>m. (m, snd (minimax sc (successor b m sc) (d - 1) False))) ms)"
proof -
  let ?tv = "\<lambda>m. snd (minimax sc (successor b m sc) (d - 1) False)"
  have "map (\<lambda>(i, m). parallel_worker (worker_clock env i) b m d sc) (zip [0 ..< length ms] ms) =
        map (\<lambda>(i, m). Inr (m, ?tv m)) (zip [0 ..< length ms] ms)"
  proof (rule map_cong [OF refl])
    fix x assume x: "x \<in> set (zip [0 ..< length ms] ms)"
    obtain i m where im: "x = (i, m)" by (cases x)
    with x have "m \<in> set ms" by (auto dest: set_zip_rightD)
    with ms have "m \<in> set (get_legal_moves b c)" by auto
    from parallel_worker_exact [OF wf this, of "worker_clock env i" d sc] nt
    show "(case x of (i, m) \<Rightarrow> parallel_worker (worker_clock env i) b m d sc) =
          (case x of (i, m) \<Rightarrow> Inr (m, ?tv m))"
      by (simp add: im)
  qed
  also have "\<dots> = map (\<lambda>m. Inr (m, ?tv m)) ms"
    by (rule map_zip_snd) simp
  also have "\<dots> = map Inr (map (\<lambda>m. (m, ?tv m)) ms)"
    by simp
  finally show ?thesis by (simp only: pool_map_map_Inr)
qed

lemma root_search_parallel_exact:
  assumes wf: "wf_board b" and nt: "\<forall>n. \<not> clk n"
    and ntw: "\<forall>i n. \<not> worker_clock env i n"
    and ms: "set ms \<subseteq> set (get_legal_moves b sc)"
  shows "\<exists>s'. root_search_parallel clk env sc b ms d s =
                Inr (first_best (\<lambda>v w. w < v) (None, NegInf)
                       (map (\<lambda>m. (m, snd (minimax sc (successor b m sc) (d - 1) False))) ms), s')"
proof -
  let ?tv = "\<lambda>m. snd (minimax sc (successor b m sc) (d - 1) False)"
  let ?s1 = "s\<lparr>ticks := Suc (ticks s)\<rparr>"
  from nt have ntk: "\<not> clk (ticks s)" by simp
  note tasks = parallel_tasks_exact [OF wf ms ntw, of d sc]
  show ?thesis
  proof (cases "min (cpu_count env) (length ms) \<le> 1 \<or> pool_raises env")
    case True
    then have "root_search_parallel clk env sc b ms d s = root_search_sequential clk sc b ms d ?s1"
      using ntk by (auto simp: root_search_parallel_fallback)
    with root_search_sequential_exact [OF wf nt ms, of d ?s1] show ?thesis by simp
  next
    case False
    then have "2 \<le> length ms" by auto
    then obtain m ms' where mms: "ms = m # ms'" by (cases ms) auto
    let ?x = "(m, ?tv m)"
    let ?xs = "map (\<lambda>m. (m, ?tv m)) ms'"
    have "root_search_parallel clk env sc b ms d s =
            Inr ((Some (fst (max_by_score ?x ?xs)), snd (max_by_score ?x ?xs)), ?s1)"
      using ntk False tasks
      by (intro root_search_parallel_results) (simp_all add: mms)
    moreover have "first_best (\<lambda>v w. w < v) (None, NegInf) (map (\<lambda>m. (m, ?tv m)) ms) =
                   (Some (fst (max_by_score ?x ?xs)), snd (max_by_score ?x ?xs))"
      using first_best_max_by_score [of ?x ?xs] by (simp add: mms)
    ultimately show ?thesis by simp
  qed
qed

section \<open>The two move generators agree\<close>

text \<open>
  C9: \<open>legal_moves(color)\<close> on the game's board and \<open>get_legal_moves(board, color)\<close> on
  the same board return the same list, in the same order, for every colour.
\<close>

theorem legal_moves_eq_get_legal_moves:
  "legal_moves (board g) color = get_legal_moves (board g) color"
proof -
  have "is_valid_position i j" if "i \<in> set range8" "j \<in> set range8" for i j
    using that by (auto simp: range8_def is_valid_position_def BOARD_SIZE_def)
  then have "(if is_valid_move b i j color then [(i, j)] else []) =
        (if cell b i j \<noteq> EMPTY then []
         else if list_ex (outflanks b i j color) DIRECTIONS then [(i, j)] else [])"
    if "i \<in> set range8" "j \<in> set range8" for i j b
    using that by (simp add: is_valid_move_def)
  then show ?thesis
    unfolding legal_moves_def get_legal_moves_def
    by (intro arg_cong [where f = concat] map_cong refl) simp_all
qed

section \<open>Illegal moves\<close>

text \<open>
  C1, as the code has it: for every board, colour and move that is not legal for the colour,
  \<open>make_move\<close> returns \<open>False\<close> and leaves the board and the history as they were.
  \<open>apply_move\<close> makes no legality test: on an 8 by 8 board and a target cell inside it,
  it returns a board that carries the mover's disc on the target cell.
\<close>

theorem illegal_move_rejected:
  assumes "\<not> is_valid_move (board g) row col color"
  shows "make_move g (Some (row, col)) color = (False, g) \<and>
         (wf_board (board g) \<and> is_valid_position row col \<longrightarrow>
            (\<exists>nb. apply_move (board g) (Some (row, col)) color = Inr nb \<and> cell nb row col = color))"
  using assms apply_move_valid_position [of "board g" row col color]
  by (auto simp: make_move_def)

theorem illegal_move_rejected_witness:
  "\<not> is_valid_move (board new_game) 0 0 BLACK \<and>
   make_move new_game (Some (0, 0)) BLACK = (False, new_game) \<and>
   wf_board (board new_game) \<and> is_valid_position 0 0 \<and>
   (\<exists>nb. apply_move (board new_game) (Some (0, 0)) BLACK = Inr nb \<and> cell nb 0 0 = BLACK)"
proof -
  have h: "\<not> is_valid_move (board new_game) 0 0 BLACK"
    by code_simp
  have wf: "wf_board (board new_game)"
    by code_simp
  have pos: "is_valid_position 0 0"
    by code_simp
  show ?thesis
    using h wf pos illegal_move_rejected [OF h] by simp
qed

text \<open>
  C1 as stated fails for \<open>apply_move\<close>: on the start position the corner \<open>(0, 0)\<close> is
  empty and outflanks nothing for Black, yet \<open>apply_move\<close> raises nothing and returns a
  board that differs from its input: the corner holds a black disc and no disc was flipped.
\<close>

theorem apply_move_places_without_flipping:
  "\<not> is_valid_move (board new_game) 0 0 BLACK \<and>
   cell (board new_game) 0 0 = EMPTY \<and>
   list_ex (outflanks (board new_game) 0 0 BLACK) DIRECTIONS = False \<and>
   apply_move (board new_game) (Some (0, 0)) BLACK = Inr (set_cell (board new_game) 0 0 BLACK) \<and>
   Inr (set_cell (board new_game) 0 0 BLACK) \<noteq> (Inr (board new_game) :: py_error + board) \<and>
   apply_move (board new_game) (Some (0, 0)) BLACK \<noteq> Inl IndexError"
  by code_simp

section \<open>Undo is the inverse of a move\<close>

text \<open>
  C2: on every 8 by 8 board, for every colour and every move legal for it, \<open>make_move\<close>
  succeeds and \<open>undo_last_move\<close> afterwards returns \<open>True\<close> and restores the game
  exactly: every cell of the board and the history as it was before the move.
\<close>

theorem make_move_undo_inverse:
  assumes wf: "wf_board (board g)" and legal: "is_valid_move (board g) row col color"
  shows "fst (make_move g (Some (row, col)) color) = True \<and>
         undo_last_move (snd (make_move g (Some (row, col)) color)) = (True, g)"
proof -
  let ?b = "board g"
  let ?fl = "flip_discs ?b row col color"
  let ?b1 = "set_cells (set_cell ?b row col color) ?fl color"
  let ?b2 = "set_cells (set_cell ?b1 row col EMPTY) ?fl (get_opponent color)"
  have pos: "is_valid_position row col" and emp: "cell ?b row col = EMPTY"
    using is_valid_move_empty [OF legal] by simp_all
  have fl: "list_all (\<lambda>p. is_valid_position (fst p) (snd p)) ?fl"
    using flip_discs_cells by (fastforce simp: list_all_iff)
  have wf1: "wf_board ?b1" by (simp add: wf wf_set_cell wf_set_cells)
  have wf2: "wf_board ?b2" by (simp add: wf1 wf_set_cell wf_set_cells)
  have "cell ?b2 r c = cell ?b r c" if rc: "is_valid_position r c" for r c
  proof (cases "(r, c) \<in> set ?fl")
    case True
    then have "cell ?b r c = get_opponent color" using flip_discs_cells by fastforce
    with True show ?thesis
      by (simp add: cell_set_cells wf1 wf_set_cell fl rc)
  next
    case False
    then show ?thesis
      using emp by (auto simp: cell_set_cells cell_set_cell wf wf1 wf_set_cell fl rc pos)
  qed
  then have "?b2 = ?b" by (rule board_ext [OF wf2 wf])
  then show ?thesis
    using legal by (simp add: make_move_def undo_last_move_def Let_def)
qed

theorem make_move_undo_inverse_witness:
  "wf_board (board new_game) \<and> is_valid_move (board new_game) 2 4 BLACK \<and>
   fst (make_move new_game (Some (2, 4)) BLACK) = True \<and>
   undo_last_move (snd (make_move new_game (Some (2, 4)) BLACK)) = (True, new_game)"
proof -
  have wf: "wf_board (board new_game)"
    by code_simp
  have legal: "is_valid_move (board new_game) 2 4 BLACK"
    by code_simp
  show ?thesis
    using wf legal make_move_undo_inverse [OF wf legal] by simp
qed

section \<open>Legality and flipping\<close>

text \<open>
  C3: for every board and colour, a move is legal exactly when \<open>flip_discs\<close> returns a
  non-empty list for it; \<open>legal_moves\<close> is the row-major list of all cells
  (\<open>(0,0), (0,1), ..., (7,7)\<close>) filtered by that test, so it holds exactly the moves that
  flip at least one disc, in scan order.
\<close>

theorem legality_iff_flips:
  "(is_valid_move b row col color \<longleftrightarrow> flip_discs b row col color \<noteq> []) \<and>
   legal_moves b color =
     filter (\<lambda>(i, j). flip_discs b i j color \<noteq> []) (List.product range8 range8) \<and>
   set (legal_moves b color) = {(i, j). flip_discs b i j color \<noteq> []}"
proof -
  have iff: "is_valid_move b r c color \<longleftrightarrow> flip_discs b r c color \<noteq> []" for r c
  proof
    assume v: "is_valid_move b r c color"
    then obtain d where d: "d \<in> set DIRECTIONS" "outflanks b r c color d"
      by (auto simp: is_valid_move_def list_ex_iff split: if_splits)
    then have "dir_flips b r c color d \<noteq> []"
      by (auto simp: outflanks_def dir_flips_def split: prod.splits)
    with d(1) v show "flip_discs b r c color \<noteq> []"
      by (auto simp: flip_discs_def)
  next
    assume "flip_discs b r c color \<noteq> []"
    then show "is_valid_move b r c color"
      by (auto simp: flip_discs_def split: if_splits)
  qed
  have lm: "legal_moves b color =
     filter (\<lambda>(i, j). is_valid_move b i j color) (List.product range8 range8)"
    unfolding legal_moves_def List.product_concat_map filter_concat map_map
    by (simp add: comp_def filter_map concat_map_if)
  have mem: "(i, j) \<in> set (List.product range8 range8)" if "is_valid_position i j" for i j
  proof -
    from that have "i \<in> {0, 1, 2, 3, 4, 5, 6, 7}" "j \<in> {0, 1, 2, 3, 4, 5, 6, 7}"
      unfolding is_valid_position_def BOARD_SIZE_def by auto
    then have "i \<in> set range8" "j \<in> set range8"
      by (simp_all add: range8_def)
    then show ?thesis by simp
  qed
  have "set (legal_moves b color) = {(i, j). is_valid_move b i j color}"
  proof -
    have "(i, j) \<in> set (List.product range8 range8)" if "is_valid_move b i j color" for i j
      using mem is_valid_move_empty [OF that] by blast
    then show ?thesis unfolding lm by auto
  qed
  then show ?thesis using iff lm by simp
qed


section \<open>Terminal positions\<close>

text \<open>
  C4: \<open>is_game_over\<close> holds exactly when neither Black nor White has a legal move; when
  one colour has none and the other has some, it is false; and an 8 by 8 board without an
  empty cell is game-over.
\<close>

theorem game_over_iff_no_moves:
  "(is_game_over b \<longleftrightarrow> legal_moves b BLACK = [] \<and> legal_moves b WHITE = []) \<and>
   ((legal_moves b BLACK = []) \<noteq> (legal_moves b WHITE = []) \<longrightarrow> \<not> is_game_over b) \<and>
   (wf_board b \<and> board_full b \<longrightarrow> is_game_over b)"
  using full_no_legal_moves by (auto simp: is_game_over_def)

theorem game_over_iff_no_moves_witness:
  "legal_moves pass_board BLACK \<noteq> [] \<and> legal_moves pass_board WHITE = [] \<and>
   \<not> is_game_over pass_board \<and>
   wf_board (replicate 8 (replicate 8 BLACK)) \<and> board_full (replicate 8 (replicate 8 BLACK)) \<and>
   is_game_over (replicate 8 (replicate 8 BLACK))"
proof -
  have a: "legal_moves pass_board BLACK \<noteq> []" "legal_moves pass_board WHITE = []"
    by code_simp+
  have b: "wf_board (replicate 8 (replicate 8 BLACK))" "board_full (replicate 8 (replicate 8 BLACK))"
    by code_simp+
  from a game_over_iff_no_moves [of pass_board] have c: "\<not> is_game_over pass_board"
    by blast
  from b game_over_iff_no_moves [of "replicate 8 (replicate 8 BLACK)"]
  have d: "is_game_over (replicate 8 (replicate 8 BLACK))"
    by blast
  show ?thesis
    using a b c d by blast
qed

section \<open>The engine always answers with a legal move\<close>




section \<open>Pruning does not change the result\<close>

text \<open>
  C6: on every 8 by 8 board, for every depth and either role, with unlimited time (no
  deadline test ever positive), \<open>alphabeta_search\<close> called with the full window returns
  exactly the move and the score of the full-width \<open>minimax\<close> of the same depth and
  evaluator; and the sequential root search over the legal moves, which narrows the window
  from one root move to the next, returns the same pair as well.
\<close>

theorem alphabeta_search_eq_minimax:
  assumes wf: "wf_board b" and nt: "\<forall>n. \<not> clk n"
  shows "(\<exists>s'. alphabeta_search clk self_color b depth NegInf PosInf maximizing s =
                 Inr (minimax self_color b depth maximizing, s')) \<and>
         (0 < depth \<and> get_legal_moves b self_color \<noteq> [] \<longrightarrow>
            (\<exists>s'. root_search_sequential clk self_color b (get_legal_moves b self_color) depth s =
                     Inr (minimax self_color b depth True, s')))"
proof
  let ?sc = self_color
  let ?c = "if maximizing then ?sc else - ?sc"
  let ?s1 = "s\<lparr>nodes_evaluated := nodes_evaluated s + 1, ticks := Suc (ticks s)\<rparr>"
  show "\<exists>s'. alphabeta_search clk ?sc b depth NegInf PosInf maximizing s =
              Inr (minimax ?sc b depth maximizing, s')"
  proof (cases "depth = 0 \<or> get_legal_moves b ?c = []")
    case True
    then show ?thesis
      by (subst alphabeta_search.simps) (auto simp: minimax_leaf Let_def)
  next
    case False
    then obtain d where d: "depth = Suc d" by (cases depth) auto
    from False have lm: "get_legal_moves b ?c \<noteq> []" by simp
    show ?thesis
    proof (cases maximizing)
      case True
      let ?tv = "\<lambda>m. snd (minimax ?sc (successor b m ?sc) d False)"
      let ?rec = "\<lambda>nb a bt s'. alphabeta_search clk ?sc nb d a bt False s'"
      have rec: "\<exists>mv ev s'. ?rec (successor b m ?sc) a PosInf s = Inr ((mv, ev), s') \<and>
                   fail_soft a PosInf (?tv m) ev"
        if "m \<in> set (get_legal_moves b ?sc)" "a < PosInf" for m a s
        using alphabeta_search_fail_soft [OF nt, of "successor b m ?sc" a PosInf ?sc d False s]
          apply_move_legal [OF wf that(1)] that(2)
        by simp
      have "\<exists>s'. max_loop clk ?rec b ?sc (get_legal_moves b ?sc) None NegInf NegInf PosInf ?s1 =
              Inr (first_best (\<lambda>v w. w < v) (None, NegInf)
                     (map (\<lambda>m. (m, ?tv m)) (get_legal_moves b ?sc)), s')"
        by (rule max_loop_exact [where rec = ?rec and tv = ?tv, OF wf nt rec]) simp_all
      moreover have "alphabeta_search clk ?sc b (Suc d) NegInf PosInf True s =
          max_loop clk ?rec b ?sc (get_legal_moves b ?sc) None NegInf NegInf PosInf ?s1"
        using lm True nt
        by (subst alphabeta_search.simps) (simp add: Let_def time_exceeded_def)
      ultimately show ?thesis
        using lm True by (simp add: d minimax_max)
    next
      case mn: False
      let ?tv = "\<lambda>m. snd (minimax ?sc (successor b m (- ?sc)) d True)"
      let ?rec = "\<lambda>nb a bt s'. alphabeta_search clk ?sc nb d a bt True s'"
      have rec: "\<exists>mv ev s'. ?rec (successor b m (- ?sc)) NegInf bt s = Inr ((mv, ev), s') \<and>
                   fail_soft NegInf bt (?tv m) ev"
        if "m \<in> set (get_legal_moves b (- ?sc))" "NegInf < bt" for m bt s
        using alphabeta_search_fail_soft [OF nt, of "successor b m (- ?sc)" NegInf bt ?sc d True s]
          apply_move_legal [OF wf that(1)] that(2)
        by simp
      have "\<exists>s'. min_loop clk ?rec b (- ?sc) (get_legal_moves b (- ?sc)) None PosInf NegInf PosInf ?s1 =
              Inr (first_best (\<lambda>v w. v < w) (None, PosInf)
                     (map (\<lambda>m. (m, ?tv m)) (get_legal_moves b (- ?sc))), s')"
        by (rule min_loop_exact [where rec = ?rec and tv = ?tv, OF wf nt rec]) simp_all
      moreover have "alphabeta_search clk ?sc b (Suc d) NegInf PosInf False s =
          min_loop clk ?rec b (- ?sc) (get_legal_moves b (- ?sc)) None PosInf NegInf PosInf ?s1"
        using lm mn nt
        by (subst alphabeta_search.simps) (simp add: Let_def time_exceeded_def)
      ultimately show ?thesis
        using lm mn by (simp add: d minimax_min)
    qed
  qed
next
  show "0 < depth \<and> get_legal_moves b self_color \<noteq> [] \<longrightarrow>
        (\<exists>s'. root_search_sequential clk self_color b (get_legal_moves b self_color) depth s =
                 Inr (minimax self_color b depth True, s'))"
  proof
    assume a: "0 < depth \<and> get_legal_moves b self_color \<noteq> []"
    then obtain d where d: "depth = Suc d" by (cases depth) auto
    from root_search_sequential_exact [OF wf nt subset_refl, of self_color depth s] a
    show "\<exists>s'. root_search_sequential clk self_color b (get_legal_moves b self_color) depth s =
                 Inr (minimax self_color b depth True, s')"
      by (simp add: d minimax_max)
  qed
qed


theorem alphabeta_search_eq_minimax_witness:
  "wf_board (board new_game) \<and> (\<forall>n. \<not> (\<lambda>n. False) n) \<and>
   (0::nat) < 1 \<and> get_legal_moves (board new_game) BLACK \<noteq> [] \<and>
   minimax BLACK (board new_game) 1 True = (Some (2, 4), Fin 30) \<and>
   (\<exists>s'. alphabeta_search (\<lambda>n. False) BLACK (board new_game) 1 NegInf PosInf True fresh_ai =
           Inr ((Some (2, 4), Fin 30), s')) \<and>
   (\<exists>s'. root_search_sequential (\<lambda>n. False) BLACK (board new_game)
           (get_legal_moves (board new_game) BLACK) 1 fresh_ai =
           Inr ((Some (2, 4), Fin 30), s'))"
proof -
  have wf: "wf_board (board new_game)"
    by code_simp
  have nt: "\<forall>n. \<not> (\<lambda>n. False) n"
    by simp
  have lm: "get_legal_moves (board new_game) BLACK \<noteq> []"
    by code_simp
  have mm: "minimax BLACK (board new_game) 1 True = (Some (2, 4), Fin 30)"
    by code_simp
  show ?thesis
    using wf lm mm alphabeta_search_eq_minimax [OF wf nt, of BLACK 1 True fresh_ai]
    by simp
qed

section \<open>Parallel and sequential root search agree\<close>

text \<open>
  C7: on every 8 by 8 board with at least two legal root moves, for every depth of at least
  2, when neither the main process nor any worker ever sees the deadline, the parallel root
  search and the sequential root search return the same move (and the same score): the
  first legal move of maximal minimax value. This holds for every number of processors and
  whether or not the pool can be created.
\<close>

theorem parallel_eq_sequential:
  assumes "wf_board b" and "\<forall>n. \<not> clk n" and "\<forall>i n. \<not> worker_clock env i n"
    and "2 \<le> depth" and "2 \<le> length (get_legal_moves b self_color)"
  shows "\<exists>mv sc s1 s2.
           root_search_parallel clk env self_color b (get_legal_moves b self_color) depth s =
             Inr ((Some mv, sc), s1) \<and>
           root_search_sequential clk self_color b (get_legal_moves b self_color) depth s =
             Inr ((Some mv, sc), s2) \<and>
           mv \<in> set (get_legal_moves b self_color) \<and>
           (Some mv, sc) = minimax self_color b depth True"
proof -
  let ?lm = "get_legal_moves b self_color"
  from assms(4) obtain d where d: "depth = Suc d" by (cases depth) auto
  from assms(5) have ne: "?lm \<noteq> []" by auto
  define r where "r = first_best (\<lambda>v w. w < v) (None, NegInf)
      (map (\<lambda>m. (m, snd (minimax self_color (successor b m self_color) (depth - 1) False))) ?lm)"
  from root_search_parallel_exact [OF assms(1,2,3) subset_refl, where d = depth and s = s]
  obtain s1 where par: "root_search_parallel clk env self_color b ?lm depth s = Inr (r, s1)"
    unfolding r_def by blast
  from root_search_sequential_exact [OF assms(1,2) subset_refl, where d = depth and s = s]
  obtain s2 where seq: "root_search_sequential clk self_color b ?lm depth s = Inr (r, s2)"
    unfolding r_def by blast
  have mm: "r = minimax self_color b depth True"
    unfolding r_def using ne by (simp add: d minimax_max)
  from root_search_sequential_total [OF assms(1) subset_refl,
      where clk = clk and sc = self_color and d = depth and s = s and c = self_color]
  have "fst r = None \<or> fst r \<in> Some ` set ?lm"
    unfolding seq by auto
  moreover have "fst r \<noteq> None"
    unfolding r_def using ne by (intro first_best_nonempty) simp
  ultimately have "fst r \<in> Some ` set ?lm" by blast
  then obtain mv where mv: "fst r = Some mv" "mv \<in> set ?lm" by blast
  from mv(1) have r: "r = (Some mv, snd r)" by (cases r) simp
  have "root_search_parallel clk env self_color b ?lm depth s = Inr ((Some mv, snd r), s1)"
    using par r by simp
  moreover have "root_search_sequential clk self_color b ?lm depth s = Inr ((Some mv, snd r), s2)"
    using seq r by simp
  moreover have "(Some mv, snd r) = minimax self_color b depth True"
    using mm r by simp
  ultimately show ?thesis using mv(2) by blast
qed


theorem parallel_eq_sequential_witness:
  "wf_board (board new_game) \<and> (\<forall>n. \<not> (\<lambda>n. False) n) \<and>
   (\<forall>i n. \<not> worker_clock (demo_env 2) i n) \<and> (2::nat) \<le> 2 \<and>
   2 \<le> length (get_legal_moves (board new_game) BLACK) \<and>
   (\<exists>mv sc s1 s2.
      root_search_parallel (\<lambda>n. False) (demo_env 2) BLACK (board new_game)
        (get_legal_moves (board new_game) BLACK) 2 fresh_ai = Inr ((Some mv, sc), s1) \<and>
      root_search_sequential (\<lambda>n. False) BLACK (board new_game)
        (get_legal_moves (board new_game) BLACK) 2 fresh_ai = Inr ((Some mv, sc), s2) \<and>
      mv \<in> set (get_legal_moves (board new_game) BLACK) \<and>
      (Some mv, sc) = minimax BLACK (board new_game) 2 True)"
proof -
  have wf: "wf_board (board new_game)"
    by code_simp
  have nt: "\<forall>n. \<not> (\<lambda>n. False) n"
    by simp
  have ntw: "\<forall>i n. \<not> worker_clock (demo_env 2) i n"
    by (simp add: demo_env_def)
  have d: "(2::nat) \<le> 2"
    by simp
  have lm: "2 \<le> length (get_legal_moves (board new_game) BLACK)"
    by code_simp
  from parallel_eq_sequential [OF wf nt ntw d lm, of fresh_ai] wf nt ntw d lm
  show ?thesis
    by blast
qed

section \<open>The first move from the start position\<close>

text \<open>
  C8, as the code has it: in the start position built by the constructor, with
  \<open>(3,3)\<close> and \<open>(4,4)\<close> black and \<open>(3,4)\<close> and \<open>(4,3)\<close> white, Black playing
  \<open>(2,4)\<close> flips exactly the one white disc at \<open>(3,4)\<close>, and the board then holds
  4 black discs and 1 white disc.
\<close>

theorem start_move_2_4_flips_one:
  "cell (board new_game) 3 3 = BLACK \<and> cell (board new_game) 3 4 = WHITE \<and>
   cell (board new_game) 4 3 = WHITE \<and> cell (board new_game) 4 4 = BLACK \<and>
   flip_discs (board new_game) 2 4 BLACK = [(3, 4)] \<and>
   fst (make_move new_game (Some (2, 4)) BLACK) = True \<and>
   count_discs (board (snd (make_move new_game (Some (2, 4)) BLACK))) = (4, 1) \<and>
   (case apply_move (board new_game) (Some (2, 4)) BLACK of
      Inl e \<Rightarrow> False | Inr nb \<Rightarrow> count_discs nb = (4, 1))"
  by code_simp

text \<open>
  C8 as stated names the move \<open>(2,3)\<close>. That cell lies below the black disc at
  \<open>(3,3)\<close> and outflanks nothing: \<open>flip_discs\<close> returns the empty list,
  \<open>make_move\<close> refuses the move and the count stays 2 to 2; \<open>apply_move\<close> places
  the disc without a flip, 3 to 2.
\<close>

theorem start_move_2_3_flips_nothing:
  "cell (board new_game) 3 3 = BLACK \<and> cell (board new_game) 3 4 = WHITE \<and>
   cell (board new_game) 4 3 = WHITE \<and> cell (board new_game) 4 4 = BLACK \<and>
   flip_discs (board new_game) 2 3 BLACK = [] \<and>
   make_move new_game (Some (2, 3)) BLACK = (False, new_game) \<and>
   length (flip_discs (board new_game) 2 3 BLACK) \<noteq> 1 \<and>
   count_discs (board (snd (make_move new_game (Some (2, 3)) BLACK))) = (2, 2) \<and>
   (case apply_move (board new_game) (Some (2, 3)) BLACK of
      Inl e \<Rightarrow> False | Inr nb \<Rightarrow> count_discs nb = (3, 2))"
  by code_simp

section \<open>Passing\<close>

text \<open>
  C10: \<open>make_move(None, color)\<close> returns \<open>True\<close>, appends a pass entry to the history
  and leaves the board as it is, for every game state and colour; no test of the legal
  moves is made, so a pass is accepted in the start position, where Black has legal moves.
\<close>

theorem pass_always_accepted:
  "make_move g None color =
     (True, g\<lparr>history := history g @
                [\<lparr>entry_move = None, entry_color = color, entry_flipped = []\<rparr>]\<rparr>) \<and>
   board (snd (make_move g None color)) = board g \<and>
   legal_moves (board new_game) BLACK \<noteq> [] \<and>
   fst (make_move new_game None BLACK) = True"
proof -
  have "legal_moves (board new_game) BLACK \<noteq> []"
    by code_simp
  then show ?thesis by (simp add: make_move_def)
qed


end
